theory Spec2Isabelle
  imports Main "HOL-Library.Word"
begin

section \<open>Strings\<close>

text \<open>
  Python strings are modelled as HOL strings: sequences of code points below 256.
  On that range the character classes of the \<open>re\<close> module for \<open>str\<close> patterns are as
  follows: \<open>\d\<close> is the ten ASCII digits, \<open>\w\<close> is every alphanumeric or numeric
  code point and the underscore, and case-insensitive matching against an ASCII
  letter of a pattern folds only the ASCII capitals.
\<close>

definition is_digit :: "char \<Rightarrow> bool" where
  "is_digit c = (let n = (of_char c :: nat) in 48 \<le> n \<and> n \<le> 57)"

definition is_word :: "char \<Rightarrow> bool" where
  "is_word c =
     (let n = (of_char c :: nat) in
        (48 \<le> n \<and> n \<le> 57) \<or> (65 \<le> n \<and> n \<le> 90) \<or> n = 95 \<or> (97 \<le> n \<and> n \<le> 122)
        \<or> n \<in> {170, 178, 179, 181, 185, 186, 188, 189, 190}
        \<or> (192 \<le> n \<and> n \<le> 214) \<or> (216 \<le> n \<and> n \<le> 246) \<or> (248 \<le> n \<and> n \<le> 255))"

definition ascii_lower :: "char \<Rightarrow> char" where
  "ascii_lower c =
     (let n = (of_char c :: nat) in if 65 \<le> n \<and> n \<le> 90 then char_of (n + 32) else c)"

fun starts_with :: "string \<Rightarrow> string \<Rightarrow> bool" where
  "starts_with [] s = True"
| "starts_with (p # ps) [] = False"
| "starts_with (p # ps) (c # cs) = (p = c \<and> starts_with ps cs)"

fun contains :: "string \<Rightarrow> string \<Rightarrow> bool" where
  "contains p [] = starts_with p []"
| "contains p (c # cs) = (starts_with p (c # cs) \<or> contains p cs)"

section \<open>The sensitive keyword pattern\<close>

text \<open>
  \<open>_filter_re\<close> is compiled with \<open>re.VERBOSE\<close>, so the line breaks and indentation
  inside the pattern are dropped and what is left is one group of fifteen literal
  alternatives; \<open>re.IGNORECASE\<close> makes each literal match in either case.
  \<open>_filter_re.search(key)\<close> is used only for its truth value.
\<close>

definition filter_keywords :: "string list" where
  "filter_keywords =
     [''password'', ''secret'', ''passwd'', ''api_key'', ''apikey'', ''access_token'',
      ''auth_token'', ''_token'', ''token_'', ''credentials'', ''mysql_pwd'',
      ''stripetoken'', ''cardnumber'', ''email'', ''phone'']"

definition filter_re_search :: "string \<Rightarrow> bool" where
  "filter_re_search key = list_ex (\<lambda>kw. contains kw (map ascii_lower key)) filter_keywords"

section \<open>The card number pattern\<close>

text \<open>
  The constructs \<open>_card_re\<close> is built from, and a backtracking matcher for them:
  \<open>rmatch r s i\<close> lists the positions at which a match of \<open>r\<close> that starts at
  position \<open>i\<close> of \<open>s\<close> can end, in the order in which the \<open>re\<close> engine tries them.
\<close>

datatype regex =
    WordBoundary
  | Digit
  | LazyStar "char list"
  | Seq regex regex
  | Repeat regex nat nat

definition is_word_at :: "string \<Rightarrow> int \<Rightarrow> bool" where
  "is_word_at s i = (0 \<le> i \<and> i < int (length s) \<and> is_word (s ! nat i))"

definition at_boundary :: "string \<Rightarrow> nat \<Rightarrow> bool" where
  "at_boundary s i = (is_word_at s (int i - 1) \<noteq> is_word_at s (int i))"

fun rep :: "(nat \<Rightarrow> nat list) \<Rightarrow> nat \<Rightarrow> nat \<Rightarrow> nat \<Rightarrow> nat list" where
  "rep f m 0 i = (if m = 0 then [i] else [])"
| "rep f m (Suc n) i =
     concat (map (rep f (m - 1) n) (f i)) @ (if m = 0 then [i] else [])"

fun rmatch :: "regex \<Rightarrow> string \<Rightarrow> nat \<Rightarrow> nat list" where
  "rmatch WordBoundary s i = (if at_boundary s i then [i] else [])"
| "rmatch Digit s i = (if i < length s \<and> is_digit (s ! i) then [Suc i] else [])"
| "rmatch (LazyStar cs) s i =
     map (\<lambda>k. i + k) [0 ..< Suc (length (takeWhile (\<lambda>c. c \<in> set cs) (drop i s)))]"
| "rmatch (Seq r1 r2) s i = concat (map (rmatch r2 s) (rmatch r1 s i))"
| "rmatch (Repeat r m n) s i = rep (rmatch r s) m n i"

definition card_re :: regex where
  "card_re = Seq WordBoundary (Seq (Repeat (Seq Digit (LazyStar '' -'')) 13 16) WordBoundary)"


text \<open>
  A match of \<open>_card_re\<close> spans at least thirteen characters and ends inside the string.
\<close>

lemma rep_bounds:
  assumes f: "\<And>i e. e \<in> set (f i) \<Longrightarrow> i < e \<and> e \<le> length s"
  shows "e \<in> set (rep f m n i) \<Longrightarrow> i \<le> length s \<Longrightarrow> i + m \<le> e \<and> e \<le> length s"
proof (induction n arbitrary: m i)
  case 0
  then show ?case by (simp split: if_splits)
next
  case (Suc n)
  from Suc.prems(1) consider
    (more) p where "p \<in> set (f i)" "e \<in> set (rep f (m - 1) n p)"
    | (stop) "m = 0" "e = i"
    by (auto split: if_splits)
  then show ?case
  proof cases
    case more
    from f [OF more(1)] have p: "i < p" "p \<le> length s" by simp_all
    from Suc.IH [OF more(2) p(2)] p(1) show ?thesis by arith
  next
    case stop
    with Suc.prems(2) show ?thesis by simp
  qed
qed

lemma card_group_bounds:
  assumes "e \<in> set (rmatch (Seq Digit (LazyStar cs)) s i)"
  shows "i < e \<and> e \<le> length s"
proof -
  from assms obtain k where i: "i < length s" and e: "e = Suc i + k"
    and k: "k \<le> length (takeWhile (\<lambda>c. c \<in> set cs) (drop (Suc i) s))"
    by (auto split: if_splits)
  have "length (takeWhile (\<lambda>c. c \<in> set cs) (drop (Suc i) s)) \<le> length (drop (Suc i) s)"
    by (rule length_takeWhile_le)
  with k i e show ?thesis by simp
qed

lemma card_re_bounds:
  assumes "e \<in> set (rmatch card_re s i)"
  shows "i + 13 \<le> e \<and> e \<le> length s"
proof -
  from assms have b: "at_boundary s i"
    and "\<exists>e'. e' \<in> set (rep (rmatch (Seq Digit (LazyStar '' -'')) s) 13 16 i)
      \<and> e \<in> set (rmatch WordBoundary s e')"
    unfolding card_re_def by (auto split: if_splits)
  then have e: "e \<in> set (rep (rmatch (Seq Digit (LazyStar '' -'')) s) 13 16 i)"
    by (auto split: if_splits)
  from b have i: "i \<le> length s"
    by (auto simp: at_boundary_def is_word_at_def)
  have g: "\<And>j e'. e' \<in> set (rmatch (Seq Digit (LazyStar '' -'')) s j)
      \<Longrightarrow> j < e' \<and> e' \<le> length s"
    by (rule card_group_bounds)
  from g e i show ?thesis by (rule rep_bounds)
qed

text \<open>
  \<open>re_search r s pos\<close> is \<open>r.search(s, pos)\<close>: the leftmost start at or after \<open>pos\<close>
  with a match, and the end the engine finds first from there.
\<close>

function re_search :: "regex \<Rightarrow> string \<Rightarrow> nat \<Rightarrow> (nat \<times> nat) option" where
  "re_search r s pos =
     (if length s < pos then None
      else (case rmatch r s pos of
              e # _ \<Rightarrow> Some (pos, e)
            | [] \<Rightarrow> re_search r s (Suc pos)))"
  by pat_completeness auto
termination
  by (relation "measure (\<lambda>(r, s, pos). Suc (length s) - pos)") auto

lemma re_search_bounds:
  "re_search r s pos = Some (i, e) \<Longrightarrow> pos \<le> i \<and> i \<le> length s \<and> e \<in> set (rmatch r s i)"
proof (induction r s pos rule: re_search.induct)
  case (1 r s pos)
  show ?case
  proof (cases "rmatch r s pos")
    case Nil
    with "1.prems" have le: "\<not> length s < pos" and "re_search r s (Suc pos) = Some (i, e)"
      by (auto split: if_splits)
    with "1.IH" [OF le Nil] show ?thesis by simp
  next
    case (Cons a as)
    with "1.prems" show ?thesis by (auto split: if_splits)
  qed
qed

text \<open>
  \<open>_card_re.sub('[Filtered]', s)\<close>: every match, found from left to right, each search
  starting where the previous match ended, is replaced by the marker. A match is
  never empty, so the rule of \<open>re.sub\<close> for empty matches plays no part.
\<close>

function card_re_sub_from :: "string \<Rightarrow> nat \<Rightarrow> string" where
  "card_re_sub_from s pos =
     (case re_search card_re s pos of
        None \<Rightarrow> drop pos s
      | Some (i, e) \<Rightarrow> take (i - pos) (drop pos s) @ ''[Filtered]'' @ card_re_sub_from s e)"
  by pat_completeness auto
termination
proof (relation "measure (\<lambda>(s, pos). length s - pos)")
  show "wf (measure (\<lambda>(s, pos). length s - pos))" by simp
next
  fix s pos x2 i e
  assume "re_search card_re s pos = Some x2" "(i, e) = x2"
  then have "re_search card_re s pos = Some (i, e)" by simp
  from re_search_bounds [OF this] card_re_bounds [of e s i]
  have "pos < e" "e \<le> length s" by simp_all
  then show "((s, e), (s, pos)) \<in> measure (\<lambda>(s, pos). length s - pos)" by simp
qed

definition card_re_sub :: "string \<Rightarrow> string" where
  "card_re_sub s = card_re_sub_from s 0"

section \<open>Python values and their renderings\<close>

datatype exn = Exn string

text \<open>
  The values a local variable can hold, as far as the logger tells them apart: a
  string, an integer, \<open>None\<close>, a Flask \<open>Config\<close> (carrying the text its own
  \<open>__repr__\<close> gives), the two indicator classes of the module, and an object of any
  other class, given by what its \<open>__repr__\<close> does: raise, or return a text.
\<close>

datatype pyval =
    PStr string
  | PInt int
  | PNone
  | PConfig string
  | PObj "exn + string"
  | FilteredValueIndicator
  | RepeatValueIndicator string

datatype repr_fn = ConfigRepr | FilteredLambda

definition digit_char :: "int \<Rightarrow> char" where
  "digit_char d = char_of (48 + d)"

text \<open>The decimal digits of an integer that is not negative, as \<open>str\<close> writes them.\<close>

function str_digits :: "int \<Rightarrow> string" where
  "str_digits n =
     (if n < 10 then [digit_char n] else str_digits (n div 10) @ [digit_char (n mod 10)])"
  by pat_completeness auto
termination
  by (relation "measure nat") auto

definition str_int :: "int \<Rightarrow> string" where
  "str_int i = (if i < 0 then CHR ''-'' # str_digits (- i) else str_digits i)"

definition hex_digit :: "nat \<Rightarrow> char" where
  "hex_digit d = (if d < 10 then char_of (48 + d) else char_of (87 + d))"

definition is_printable :: "char \<Rightarrow> bool" where
  "is_printable c = (let n = (of_char c :: nat) in (32 \<le> n \<and> n < 127) \<or> (161 \<le> n \<and> n \<noteq> 173))"

definition repr_char :: "char \<Rightarrow> char \<Rightarrow> string" where
  "repr_char quote c =
     (if c = quote \<or> c = CHR 0x5C then [CHR 0x5C, c]
      else if c = CHR 0x09 then [CHR 0x5C, CHR ''t'']
      else if c = CHR 0x0A then [CHR 0x5C, CHR ''n'']
      else if c = CHR 0x0D then [CHR 0x5C, CHR ''r'']
      else if is_printable c then [c]
      else [CHR 0x5C, CHR ''x'', hex_digit (of_char c div 16), hex_digit (of_char c mod 16)])"

text \<open>\<open>repr\<close> of a \<open>str\<close>: single quotes, unless the text has a single quote and no double quote.\<close>

definition repr_str :: "string \<Rightarrow> string" where
  "repr_str s =
     (let quote = (if CHR 0x27 \<in> set s \<and> CHR 0x22 \<notin> set s then CHR 0x22 else CHR 0x27)
      in quote # concat (map (repr_char quote) s) @ [quote])"

text \<open>
  \<open>repr(v)\<close>, under the \<open>Config.__repr__\<close> that is installed at the time of the call.
\<close>

fun py_repr :: "repr_fn \<Rightarrow> pyval \<Rightarrow> exn + string" where
  "py_repr cr (PStr s) = Inr (repr_str s)"
| "py_repr cr (PInt i) = Inr (str_int i)"
| "py_repr cr PNone = Inr ''None''"
| "py_repr cr (PConfig own) = Inr (case cr of ConfigRepr \<Rightarrow> own | FilteredLambda \<Rightarrow> ''<Config [FILTERED]>'')"
| "py_repr cr (PObj r) = r"
| "py_repr cr FilteredValueIndicator = Inr ''[Filtered]''"
| "py_repr cr (RepeatValueIndicator key) = Inr (''<same as prior '' @ repr_str key @ ''>'')"

text \<open>
  \<open>str(v)\<close>: the text itself for a string; \<open>FilteredValueIndicator\<close> defines \<open>__str__\<close>
  with the same text as \<open>__repr__\<close>, \<open>RepeatValueIndicator\<close> sets \<open>__str__ = __repr__\<close>,
  and the other classes here fall back on \<open>__repr__\<close>.
\<close>

fun py_str :: "repr_fn \<Rightarrow> pyval \<Rightarrow> exn + string" where
  "py_str cr (PStr s) = Inr s"
| "py_str cr v = py_repr cr v"

section \<open>filtered_value\<close>

definition isinstance_str :: "pyval \<Rightarrow> bool" where
  "isinstance_str v = (case v of PStr _ \<Rightarrow> True | _ \<Rightarrow> False)"

text \<open>The first test of \<open>filtered_value\<close>: \<open>isinstance(key, str) and _filter_re.search(key)\<close>.\<close>

definition key_is_sensitive :: "pyval \<Rightarrow> bool" where
  "key_is_sensitive key = (case key of PStr k \<Rightarrow> filter_re_search k | _ \<Rightarrow> False)"

definition filtered_value :: "pyval \<Rightarrow> pyval \<Rightarrow> pyval" where
  "filtered_value key value =
     (if key_is_sensitive key then FilteredValueIndicator
      else (case value of PStr v \<Rightarrow> PStr (card_re_sub v) | _ \<Rightarrow> value))"

section \<open>LocalVarFormatter.formatException\<close>

text \<open>
  A frame object with the attributes the formatter reads. \<open>f_locals\<close> lists the local
  names in the order of \<open>items()\<close>, each with the identity (\<open>id\<close>) of the object it is
  bound to; the objects themselves live in a heap indexed by identity, so two names
  bound to one object share an identity and a value.
\<close>

datatype frame =
  Frame (co_name: string) (co_filename: string) (f_lineno: int)
    (f_locals: "(string \<times> nat) list") (f_back: "frame option")

datatype traceback = Traceback (tb_frame: frame) (tb_next: "traceback option")

type_synonym heap = "nat \<Rightarrow> pyval"

type_synonym value_cache = "nat \<rightharpoonup> string"

text \<open>The first loop: follow \<open>tb_next\<close> to the last traceback entry.\<close>

fun innermost_tb :: "traceback \<Rightarrow> traceback" where
  "innermost_tb (Traceback f None) = Traceback f None"
| "innermost_tb (Traceback f (Some t)) = innermost_tb t"

text \<open>The second loop: collect the frame and every \<open>f_back\<close> behind it.\<close>

fun frame_stack :: "frame \<Rightarrow> frame list" where
  "frame_stack (Frame n fn l ls None) = [Frame n fn l ls None]"
| "frame_stack (Frame n fn l ls (Some b)) = Frame n fn l ls (Some b) # frame_stack b"

text \<open>\<open>print(x, file=sio)\<close> writes the text and a line feed.\<close>

definition println :: "string \<Rightarrow> string" where
  "println s = s @ [CHR 0x0A]"

text \<open>The format \<open>{attr:>20}\<close>: right aligned in twenty columns, longer names untouched.\<close>

definition rjust :: "nat \<Rightarrow> string \<Rightarrow> string" where
  "rjust w s = replicate (w - length s) CHR '' '' @ s"

text \<open>\<open>print(f"\t{attr:>20} = ", end=' ', file=sio)\<close>\<close>

definition var_label :: "string \<Rightarrow> string" where
  "var_label attr = CHR 0x09 # rjust 20 attr @ '' = '' @ '' ''"

text \<open>
  The value that is rendered for a local: an object whose identity is already in
  \<open>value_cache\<close> is replaced by a \<open>RepeatValueIndicator\<close> holding the cached key.
\<close>

definition local_value :: "heap \<Rightarrow> value_cache \<Rightarrow> nat \<Rightarrow> pyval" where
  "local_value h cache idvalue =
     (case cache idvalue of Some key \<Rightarrow> RepeatValueIndicator key | None \<Rightarrow> h idvalue)"

text \<open>
  The body of the loop over \<open>frame.f_locals.items()\<close>. The \<open>try\<close> around
  \<open>print(repr(filtered_value(attr, value)))\<close> has a bare \<open>except\<close>, so whatever is
  raised there ends in the placeholder line.
\<close>

definition render_local ::
  "repr_fn \<Rightarrow> heap \<Rightarrow> string \<Rightarrow> value_cache \<Rightarrow> string \<times> nat \<Rightarrow> value_cache \<times> string" where
  "render_local cr h name cache var =
     (case var of (attr, idvalue) \<Rightarrow>
        (let value = local_value h cache idvalue;
             cache' = (case cache idvalue of
                         Some key \<Rightarrow> cache
                       | None \<Rightarrow> cache(idvalue \<mapsto> name @ ''.'' @ attr))
         in (cache', var_label attr @
               (case py_repr cr (filtered_value (PStr attr) value) of
                  Inr text \<Rightarrow> println text
                | Inl _ \<Rightarrow> println ''<ERROR WHILE PRINTING VALUE>''))))"

fun dump_locals ::
  "repr_fn \<Rightarrow> heap \<Rightarrow> string \<Rightarrow> value_cache \<Rightarrow> (string \<times> nat) list \<Rightarrow> value_cache \<times> string" where
  "dump_locals cr h name cache [] = (cache, [])"
| "dump_locals cr h name cache (var # vars) =
     (let (cache1, out1) = render_local cr h name cache var;
          (cache2, out2) = dump_locals cr h name cache1 vars
      in (cache2, out1 @ out2))"

definition frame_header :: "frame \<Rightarrow> string" where
  "frame_header f =
     println (CHR 0x0A # ''----'' @ [CHR 0x0A]) @
     println (''Frame '' @ co_name f @ '' in '' @ co_filename f @ '' at line '' @
              str_int (f_lineno f))"

fun dump_frames :: "repr_fn \<Rightarrow> heap \<Rightarrow> value_cache \<Rightarrow> frame list \<Rightarrow> value_cache \<times> string" where
  "dump_frames cr h cache [] = (cache, [])"
| "dump_frames cr h cache (f # fs) =
     (let (cache1, out1) = dump_locals cr h (co_name f) cache (f_locals f);
          (cache2, out2) = dump_frames cr h cache1 fs
      in (cache2, frame_header f @ out1 @ out2))"

text \<open>
  Inside the loop over the stack only the rendering of a value is guarded by \<open>try\<close>.
  An exception raised by any other statement of the loop body (an interrupt or a
  memory error while a frame header is printed or \<open>f_locals\<close> is read) leaves the loop
  and the \<open>with\<close> block. Where that happens is given from outside: \<open>Some (k, e)\<close> says
  that \<open>e\<close> is raised when the loop reaches the frame of index \<open>k\<close>, \<open>None\<close> that no such
  exception occurs. The text written so far sits in the local \<open>sio\<close> and is lost.
\<close>

definition stack_dump ::
  "repr_fn \<Rightarrow> heap \<Rightarrow> (nat \<times> exn) option \<Rightarrow> frame list \<Rightarrow> exn + string" where
  "stack_dump cr h interrupt stack =
     (case interrupt of
        Some (k, e) \<Rightarrow>
          if k < length stack then Inl e else Inr (snd (dump_frames cr h Map.empty stack))
      | None \<Rightarrow> Inr (snd (dump_frames cr h Map.empty stack)))"

text \<open>
  The state outside the call that the method touches: the formatter's lock and the
  class attribute \<open>Config.__repr__\<close>.
\<close>

record pystate =
  lock_locked :: bool
  config_repr :: repr_fn

text \<open>
  What the call takes from its surroundings: the heap; the outcome of
  \<open>traceback.print_exception\<close>, which runs before the lock is taken; the interrupt of
  the loop over the stack; and the outcome of the sections after the \<open>with\<close> block
  (request, session, app context and current auth), which read Flask's globals and
  touch neither the lock nor \<open>Config.__repr__\<close>.
\<close>

record environment =
  env_heap :: heap
  print_exception :: "exn + string"
  interrupt :: "(nat \<times> exn) option"
  context_sections :: "exn + string"

text \<open>\<open>if s[-1:] == '\n': s = s[:-1]\<close>\<close>

definition strip_last_newline :: "string \<Rightarrow> string" where
  "strip_last_newline s = (if s \<noteq> [] \<and> last s = CHR 0x0A then butlast s else s)"

text \<open>
  The method, from a state in which the lock is free. \<open>with self.lock\<close> releases the
  lock however the block is left; the assignment that puts \<open>original_config_repr\<close>
  back is the last statement of the block and runs only if the block gets there.
\<close>

definition formatException ::
  "pystate \<Rightarrow> environment \<Rightarrow> traceback \<Rightarrow> pystate \<times> (exn + string)" where
  "formatException st env tb =
     (let stack = frame_stack (tb_frame (innermost_tb tb)) in
      case print_exception env of
        Inl e \<Rightarrow> (st, Inl e)
      | Inr sio0 \<Rightarrow>
          (let st1 = st\<lparr>lock_locked := True\<rparr>;
               original_config_repr = config_repr st1;
               st2 = st1\<lparr>config_repr := FilteredLambda\<rparr>
           in case stack_dump (config_repr st2) (env_heap env) (interrupt env) stack of
                Inl e \<Rightarrow> (st2\<lparr>lock_locked := False\<rparr>, Inl e)
              | Inr dump \<Rightarrow>
                  (let st3 = st2\<lparr>config_repr := original_config_repr\<rparr>;
                       st4 = st3\<lparr>lock_locked := False\<rparr>
                   in case context_sections env of
                        Inl e \<Rightarrow> (st4, Inl e)
                      | Inr ctx \<Rightarrow>
                          (st4, Inr (strip_last_newline
                             (sio0 @ println (CHR 0x0A # ''----------'' @ [CHR 0x0A]) @
                              println ''Stack frames (most recent call first):'' @
                              dump @ ctx))))))"

section \<open>String operations used by the handlers\<close>

text \<open>
  \<open>s.count(p)\<close>: the occurrences of \<open>p\<close> found from left to right, each search going on
  after the end of the previous occurrence.
\<close>

function py_count :: "string \<Rightarrow> string \<Rightarrow> nat" where
  "py_count p s =
     (if p = [] then Suc (length s)
      else if s = [] then 0
      else if starts_with p s then Suc (py_count p (drop (length p) s))
      else py_count p (tl s))"
  by pat_completeness auto
termination
  by (relation "measure (\<lambda>(p, s). length s)") auto

text \<open>\<open>html.escape(s, False)\<close>: the ampersand and the two angle brackets, no quotes.\<close>

definition escape_char :: "char \<Rightarrow> string" where
  "escape_char c =
     (if c = CHR ''&'' then ''&amp;''
      else if c = CHR ''<'' then ''&lt;''
      else if c = CHR ''>'' then ''&gt;''
      else [c])"

definition escape :: "string \<Rightarrow> string" where
  "escape s = concat (map escape_char s)"

text \<open>
  \<open>s.strip()\<close>: the white space of \<open>str\<close> below code point 256 is tab to carriage
  return, the four separators 28 to 31, the space, and the code points 133 and 160.
\<close>

definition is_space :: "char \<Rightarrow> bool" where
  "is_space c =
     (let n = (of_char c :: nat) in
        (9 \<le> n \<and> n \<le> 13) \<or> (28 \<le> n \<and> n \<le> 32) \<or> n = 133 \<or> n = 160)"

definition strip :: "string \<Rightarrow> string" where
  "strip s = rev (dropWhile is_space (rev (dropWhile is_space s)))"

text \<open>\<open>s.split('\n', 1)\<close>: one piece, or the text before and after the first line feed.\<close>

definition split_first_line :: "string \<Rightarrow> string list" where
  "split_first_line s =
     (if CHR 0x0A \<in> set s
      then [takeWhile (\<lambda>c. c \<noteq> CHR 0x0A) s, tl (dropWhile (\<lambda>c. c \<noteq> CHR 0x0A) s)]
      else [s])"

text \<open>\<open>sep.join(xs)\<close>\<close>

fun join :: "string \<Rightarrow> string list \<Rightarrow> string" where
  "join sep [] = []"
| "join sep [x] = x"
| "join sep (x # y # ys) = x @ sep @ join sep (y # ys)"

section \<open>Log records\<close>

text \<open>
  The attributes of a log record that the handlers read. Of \<open>exc_info\<close> the handlers
  use \<open>repr(record.exc_info[1])\<close> and \<open>traceback.format_exception(*record.exc_info)\<close>;
  both come with the record.
\<close>

record exc_info =
  exc_repr :: string
  format_exception :: "string list"

record log_record =
  rec_module :: string
  lineno :: int
  levelname :: string
  message :: string
  exc_text :: "string option"
  rec_exc_info :: "exc_info option"

section \<open>TelegramHandler\<close>

text \<open>
  The horizontal ellipsis that marks a truncated message is one code point, U+2026,
  beyond the range of \<open>char\<close>; it is stood for by the single character 133.
\<close>

definition ellipsis :: char where
  "ellipsis = CHR 0x85"

text \<open>One entry of the reversed traceback, as the loop over \<open>traceback_lines\<close> rewrites it.\<close>

definition telegram_stack_frame :: "string \<Rightarrow> string" where
  "telegram_stack_frame stack_frame =
     (let stack_frame_lines = split_first_line stack_frame
      in join [CHR 0x0A]
           ([escape (strip (hd stack_frame_lines))] @
            map (\<lambda>l. ''<pre>'' @ escape (strip l) @ ''</pre>'')
              (filter (\<lambda>l. l \<noteq> []) (tl stack_frame_lines)))
         @ [CHR 0x0A])"

text \<open>The text before the length check.\<close>

definition telegram_full_text :: "string \<Rightarrow> log_record \<Rightarrow> string" where
  "telegram_full_text app_name r =
     (let text = ''<b>'' @ escape (levelname r) @ ''</b> in <b>'' @ escape app_name @ ''</b>: '' @
                 escape (message r)
      in case rec_exc_info r of
           None \<Rightarrow> text
         | Some ei \<Rightarrow>
             text @ [CHR 0x0A, CHR 0x0A] @
             join [CHR 0x0A] (map telegram_stack_frame (rev (tl (format_exception ei)))))"

text \<open>The length check: \<open>4096 - 7\<close> characters are kept, 7 being \<open>len('</pre>...')\<close>.\<close>

definition telegram_truncate :: "string \<Rightarrow> string" where
  "telegram_truncate text =
     (if length text > 4096 then
        (let text1 = take (4096 - 7) text;
             text2 = (if py_count ''<pre>'' text1 > py_count ''</pre>'' text1
                      then text1 @ ''</pre>'' else text1)
         in text2 @ [ellipsis])
      else text)"

definition telegram_text :: "string \<Rightarrow> log_record \<Rightarrow> string" where
  "telegram_text app_name r = telegram_truncate (telegram_full_text app_name r)"

text \<open>
  The shape of the text before truncation: every \<open><\<close> in it starts one of the four
  literal tags, and the \<open>pre\<close> tags alternate. \<open>pre_text b s b'\<close> says that \<open>s\<close> has
  this shape, starting inside a \<open>pre\<close> block if \<open>b\<close> and ending inside one if \<open>b'\<close>.
\<close>

inductive pre_text :: "bool \<Rightarrow> string \<Rightarrow> bool \<Rightarrow> bool" where
  pt_Nil: "pre_text b [] b"
| pt_Plain: "CHR ''<'' \<notin> set t \<Longrightarrow> pre_text b s b' \<Longrightarrow> pre_text b (t @ s) b'"
| pt_Open: "pre_text True s b' \<Longrightarrow> pre_text False (''<pre>'' @ s) b'"
| pt_Close: "pre_text False s b' \<Longrightarrow> pre_text True (''</pre>'' @ s) b'"
| pt_Bold: "pre_text b s b' \<Longrightarrow> pre_text b (''<b>'' @ s) b'"
| pt_BoldEnd: "pre_text b s b' \<Longrightarrow> pre_text b (''</b>'' @ s) b'"

section \<open>Delivery\<close>

text \<open>
  \<open>requests.post\<close> is the network: for each URL it either completes (\<open>None\<close>) or
  raises. The throttle dictionaries map \<open>(record.module, record.lineno)\<close> to the time
  of the last report, in microseconds; \<open>now\<close> is the reading of \<open>datetime.utcnow()\<close>
  during the call.
\<close>

type_synonym network = "string \<Rightarrow> exn option"

type_synonym throttle = "string \<times> int \<rightharpoonup> int"

definition five_minutes :: int where
  "five_minutes = 5 * 60 * 1000000"

text \<open>The test both handlers open with.\<close>

definition not_throttled :: "throttle \<Rightarrow> int \<Rightarrow> string \<times> int \<Rightarrow> bool" where
  "not_throttled th now throttle_key =
     (case th throttle_key of None \<Rightarrow> True | Some t \<Rightarrow> now - t > five_minutes)"

section \<open>SlackHandler.emit\<close>

text \<open>\<open>s.split(sep)\<close> for a separator that is not empty.\<close>

function py_split_from :: "string \<Rightarrow> string \<Rightarrow> string \<Rightarrow> string list" where
  "py_split_from sep cur s =
     (if s = [] then [cur]
      else if sep \<noteq> [] \<and> starts_with sep s
        then cur # py_split_from sep [] (drop (length sep) s)
      else py_split_from sep (cur @ [hd s]) (tl s))"
  by pat_completeness auto
termination
  by (relation "measure (\<lambda>(sep, cur, s). length s)") auto

definition py_split :: "string \<Rightarrow> string \<Rightarrow> string list" where
  "py_split sep s = py_split_from sep [] s"

text \<open>A webhook is a dictionary; each key the handler looks up may be missing.\<close>

record webhook =
  wh_url :: "string option"
  wh_levelnames :: "string list option"
  wh_channel :: "string option"
  wh_username :: "string option"
  wh_icon_emoji :: "string option"

record attachment =
  fallback :: string
  pretext :: string
  att_text :: string

record slack_payload =
  pl_text :: string
  pl_attachments :: "attachment list"
  pl_channel :: "string option"
  pl_username :: "string option"
  pl_icon_emoji :: "string option"

text \<open>\<open>webhook.get('levelnames', [])\<close>\<close>

definition levelnames_of :: "webhook \<Rightarrow> string list" where
  "levelnames_of w = (case wh_levelnames w of None \<Rightarrow> [] | Some ls \<Rightarrow> ls)"

definition slack_sections :: "log_record \<Rightarrow> string list list" where
  "slack_sections r =
     (case exc_text r of
        None \<Rightarrow> []
      | Some t \<Rightarrow>
          (if t = [] then []
           else map (\<lambda>s. split_first_line (strip s))
                  (concat (map (py_split ''----'') (py_split ''----------'' t)))))"

definition slack_attachment :: "string list \<Rightarrow> attachment" where
  "slack_attachment section =
     \<lparr>fallback = hd section, pretext = hd section,
      att_text = (if length section > 1
                  then ''```'' @ [CHR 0x0A] @ section ! 1 @ [CHR 0x0A] @ ''```''
                  else [])\<rparr>"

definition slack_data :: "string \<Rightarrow> log_record \<Rightarrow> slack_payload" where
  "slack_data app_name r =
     \<lparr>pl_text = ''*'' @ levelname r @ ''* in '' @ app_name @ '': '' @ message r @ '': `'' @
                (case rec_exc_info r of None \<Rightarrow> [] | Some ei \<Rightarrow> exc_repr ei) @ ''`'',
      pl_attachments = map slack_attachment (slack_sections r),
      pl_channel = None, pl_username = None, pl_icon_emoji = None\<rparr>"

text \<open>
  \<open>payload = dict(data)\<close>, then each of \<open>channel\<close>, \<open>username\<close> and \<open>icon_emoji\<close> that the
  webhook has.
\<close>

definition slack_payload_for :: "slack_payload \<Rightarrow> webhook \<Rightarrow> slack_payload" where
  "slack_payload_for data w =
     data\<lparr>pl_channel := wh_channel w, pl_username := wh_username w,
          pl_icon_emoji := wh_icon_emoji w\<rparr>"

text \<open>
  The loop over the webhooks. The \<open>try\<close> holds the look-up of \<open>webhook['url']\<close> and the
  \<open>requests.post\<close>; its bare \<open>except\<close> passes, so a missing URL and a failed post both
  go on to the assignment of the throttle time. The result carries the throttle
  dictionary, the requests that went through, and the exception that leaves the loop,
  if any.
\<close>

fun slack_post_all ::
  "network \<Rightarrow> int \<Rightarrow> string \<times> int \<Rightarrow> string \<Rightarrow> slack_payload \<Rightarrow> webhook list \<Rightarrow> throttle \<Rightarrow>
   throttle \<times> (string \<times> slack_payload) list \<times> exn option" where
  "slack_post_all net now throttle_key lname data [] th = (th, [], None)"
| "slack_post_all net now throttle_key lname data (w # ws) th =
     (if lname \<notin> set (levelnames_of w) then slack_post_all net now throttle_key lname data ws th
      else
        (let payload = slack_payload_for data w;
             sent = (case wh_url w of
                       None \<Rightarrow> []
                     | Some url \<Rightarrow> (case net url of None \<Rightarrow> [(url, payload)] | Some e \<Rightarrow> []));
             th1 = th(throttle_key \<mapsto> now);
             (th2, sent2, raised) = slack_post_all net now throttle_key lname data ws th1
         in (th2, sent @ sent2, raised)))"

definition slack_emit ::
  "string \<Rightarrow> webhook list \<Rightarrow> network \<Rightarrow> int \<Rightarrow> throttle \<Rightarrow> log_record \<Rightarrow>
   throttle \<times> (string \<times> slack_payload) list \<times> exn option" where
  "slack_emit app_name webhooks net now th r =
     (let throttle_key = (rec_module r, lineno r) in
      if not_throttled th now throttle_key then
        (if levelname r \<notin> set (concat (map levelnames_of webhooks)) then (th, [], None)
         else slack_post_all net now throttle_key (levelname r) (slack_data app_name r) webhooks th)
      else (th, [], None))"

section \<open>TelegramHandler.emit\<close>

definition telegram_url :: "string \<Rightarrow> string" where
  "telegram_url apikey = ''https://api.telegram.org/bot'' @ apikey @ ''/sendMessage''"

text \<open>
  \<open>requests.post\<close> is called outside any \<open>try\<close>: an exception it raises leaves \<open>emit\<close>
  before the throttle time is set. The posted request is the chat id and the text.
\<close>

definition telegram_emit ::
  "string \<Rightarrow> string \<Rightarrow> string \<Rightarrow> network \<Rightarrow> int \<Rightarrow> throttle \<Rightarrow> log_record \<Rightarrow>
   throttle \<times> (string \<times> string \<times> string) list \<times> exn option" where
  "telegram_emit app_name chatid apikey net now th r =
     (let throttle_key = (rec_module r, lineno r) in
      if not_throttled th now throttle_key then
        (let text = telegram_text app_name r in
         case net (telegram_url apikey) of
           Some e \<Rightarrow> (th, [], Some e)
         | None \<Rightarrow> (th(throttle_key \<mapsto> now), [(telegram_url apikey, chatid, text)], None))
      else (th, [], None))"

section \<open>Decimal numbers\<close>

text \<open>
  Modelled from the spec: reading a numeric key back (the comparators of
  \<open>coaster.sqlalchemy\<close> are missing): a text that is not empty and has only the ten
  digits; anything else is malformed.
\<close>

definition parse_decimal :: "string \<Rightarrow> int option" where
  "parse_decimal s =
     (if s \<noteq> [] \<and> list_all is_digit s
      then Some (foldl (\<lambda>acc c. 10 * acc + (of_char c - 48)) 0 s)
      else None)"

declare str_digits.simps [simp del]

lemma digit_char_value:
  assumes "0 \<le> d" "d < 10"
  shows "(of_char (digit_char d) :: int) = 48 + d \<and> is_digit (digit_char d)"
proof -
  from assms have m: "(48 + d) mod 256 = 48 + d" by simp
  have i: "(of_char (digit_char d) :: int) = 48 + d"
    unfolding digit_char_def by (simp only: of_char_of m)
  have "(of_char (digit_char d) :: nat) = nat (of_char (digit_char d) :: int)"
    by (simp add: of_char_def)
  with i assms have "(of_char (digit_char d) :: nat) = nat (48 + d)" by simp
  moreover from assms have "48 \<le> nat (48 + d)" "nat (48 + d) \<le> 57" by linarith+
  ultimately have "is_digit (digit_char d)" by (simp add: is_digit_def Let_def)
  with i show ?thesis by simp
qed

lemma str_digits_shape: "0 \<le> n \<Longrightarrow> str_digits n \<noteq> [] \<and> list_all is_digit (str_digits n)"
proof (induction n rule: str_digits.induct)
  case (1 n)
  show ?case
  proof (cases "n < 10")
    case True
    with "1.prems" show ?thesis
      by (simp add: str_digits.simps [of n] digit_char_value)
  next
    case False
    with "1.prems" have "0 \<le> n div 10" "0 \<le> n mod 10" "n mod 10 < 10" by simp_all
    with "1.IH" False show ?thesis
      by (simp add: str_digits.simps [of n] digit_char_value)
  qed
qed

lemma str_digits_value:
  "0 \<le> n \<Longrightarrow> foldl (\<lambda>acc c. 10 * acc + (of_char c - 48)) 0 (str_digits n) = n"
proof (induction n rule: str_digits.induct)
  case (1 n)
  show ?case
  proof (cases "n < 10")
    case True
    with "1.prems" show ?thesis
      by (simp add: str_digits.simps [of n] digit_char_value)
  next
    case False
    with "1.prems" have "0 \<le> n div 10" "0 \<le> n mod 10" "n mod 10 < 10" by simp_all
    with "1.IH" False show ?thesis
      by (simp add: str_digits.simps [of n] digit_char_value)
  qed
qed

lemma parse_decimal_str_digits: "0 \<le> n \<Longrightarrow> parse_decimal (str_digits n) = Some n"
  by (simp add: parse_decimal_def str_digits_shape str_digits_value)

lemma str_digits_inj: "0 \<le> m \<Longrightarrow> 0 \<le> n \<Longrightarrow> str_digits m = str_digits n \<Longrightarrow> m = n"
  by (metis parse_decimal_str_digits option.inject)

section \<open>The slug generator\<close>

text \<open>
  The naming mixins (\<open>coaster.sqlalchemy\<close>) and \<open>make_name\<close> (\<open>coaster.utils\<close>) are not
  among the sources; only their tests are. The definitions of this section follow
  sections 3 and 4.1 of the specification step by step.
\<close>

text \<open>
  Modelled from the spec: the Unicode folding of a title character (the normalisation
  function is missing), on code points below 256, as a transliteration to ASCII gives
  it: a letter with a diacritic folds to its base letter, a ligature to its letters, a
  superscript digit to its digit; every other character is left as it is.
\<close>

definition unicode_fold :: "char \<Rightarrow> string" where
  "unicode_fold c =
     (let n = (of_char c :: nat) in
        if 192 \<le> n \<and> n \<le> 197 then ''A''
        else if n = 198 then ''AE''
        else if n = 199 then ''C''
        else if 200 \<le> n \<and> n \<le> 203 then ''E''
        else if 204 \<le> n \<and> n \<le> 207 then ''I''
        else if n = 208 then ''D''
        else if n = 209 then ''N''
        else if (210 \<le> n \<and> n \<le> 214) \<or> n = 216 then ''O''
        else if 217 \<le> n \<and> n \<le> 220 then ''U''
        else if n = 221 then ''Y''
        else if n = 222 then ''Th''
        else if n = 223 then ''ss''
        else if 224 \<le> n \<and> n \<le> 229 then ''a''
        else if n = 230 then ''ae''
        else if n = 231 then ''c''
        else if 232 \<le> n \<and> n \<le> 235 then ''e''
        else if 236 \<le> n \<and> n \<le> 239 then ''i''
        else if n = 240 then ''d''
        else if n = 241 then ''n''
        else if (242 \<le> n \<and> n \<le> 246) \<or> n = 248 then ''o''
        else if 249 \<le> n \<and> n \<le> 252 then ''u''
        else if n = 253 \<or> n = 255 then ''y''
        else if n = 254 then ''th''
        else if n = 170 then ''a''
        else if n = 186 then ''o''
        else if n = 178 then ''2''
        else if n = 179 then ''3''
        else if n = 185 then ''1''
        else [c])"

text \<open>
  Modelled from the spec: the characters a name keeps after folding, the ASCII letters
  and digits; everything else is a separator or punctuation.
\<close>

definition is_alnum :: "char \<Rightarrow> bool" where
  "is_alnum c =
     (let n = (of_char c :: nat) in
        (48 \<le> n \<and> n \<le> 57) \<or> (65 \<le> n \<and> n \<le> 90) \<or> (97 \<le> n \<and> n \<le> 122))"

text \<open>
  Modelled from the spec: lower case for what is kept, a hyphen for every separator
  or punctuation character.
\<close>

definition to_slug_char :: "char \<Rightarrow> char" where
  "to_slug_char c = (if is_alnum c then ascii_lower c else CHR ''-'')"

text \<open>Modelled from the spec: a run of hyphens collapses to a single one.\<close>

fun squeeze_hyphens :: "string \<Rightarrow> string" where
  "squeeze_hyphens (a # b # s) =
     (if a = CHR ''-'' \<and> b = CHR ''-'' then squeeze_hyphens (b # s)
      else a # squeeze_hyphens (b # s))"
| "squeeze_hyphens s = s"

text \<open>Modelled from the spec: leading and trailing hyphens are stripped.\<close>

definition strip_hyphens :: "string \<Rightarrow> string" where
  "strip_hyphens s =
     rev (dropWhile (\<lambda>c. c = CHR ''-'') (rev (dropWhile (\<lambda>c. c = CHR ''-'') s)))"

text \<open>
  Modelled from the spec: the normalisation of a title (the first step of \<open>makeName\<close>,
  which is missing), in the order the specification lists the steps: Unicode folding,
  lower case, separators and punctuation replaced by a single hyphen, hyphens stripped
  from both ends, then truncation to the maximum length if one is set.
\<close>

definition normalize_title :: "string \<Rightarrow> nat option \<Rightarrow> string" where
  "normalize_title title max_length =
     (let name = strip_hyphens (squeeze_hyphens
                   (map to_slug_char (concat (map unicode_fold title))))
      in case max_length of None \<Rightarrow> name | Some n \<Rightarrow> take n name)"

text \<open>
  Modelled from the spec: the entities a name is checked against (the store is the
  external database). An entity is its scope (the parent, or none) and its name; the
  store holds the persisted entities and the ones pending in the current transaction.
\<close>

type_synonym entity = "nat option \<times> string"

record store =
  committed :: "entity list"
  pending :: "entity list"

text \<open>
  Modelled from the spec: the names taken within a scope (the scoped existence check of
  the store, which is missing), persisted and pending entities alike.
\<close>

definition names_in_scope :: "store \<Rightarrow> nat option \<Rightarrow> string list" where
  "names_in_scope st scope =
     map snd (filter (\<lambda>e. fst e = scope) (committed st @ pending st))"

text \<open>
  The candidates of the suffix search are all different and only finitely many names
  are in use, so the search ends.
\<close>

lemma suffix_candidates_finite:
  "finite {j. i \<le> j \<and> base @ str_digits (int j) \<in> set used}"
proof -
  have "inj (\<lambda>j. base @ str_digits (int j))"
  proof (rule injI)
    fix x y :: nat
    assume "base @ str_digits (int x) = base @ str_digits (int y)"
    then have "str_digits (int x) = str_digits (int y)" by simp
    then have "int x = int y" by (rule str_digits_inj [rotated 2]) simp_all
    then show "x = y" by simp
  qed
  then have "finite ((\<lambda>j. base @ str_digits (int j)) -` set used)"
    by (intro finite_vimageI) simp_all
  then show ?thesis by (rule rev_finite_subset) auto
qed

text \<open>
  Modelled from the spec: the suffix search of \<open>makeName\<close> (missing): an integer suffix
  is appended, starting at the given number and incrementing until the name is free.
\<close>

function suffix_search :: "string \<Rightarrow> string list \<Rightarrow> nat \<Rightarrow> string" where
  "suffix_search base used i =
     (if base @ str_digits (int i) \<in> set used then suffix_search base used (Suc i)
      else base @ str_digits (int i))"
  by pat_completeness auto
termination
proof (relation "measure (\<lambda>(base, used, i). card {j. i \<le> j \<and> base @ str_digits (int j) \<in> set used})")
  show "wf (measure (\<lambda>(base, used, i). card {j. i \<le> j \<and> base @ str_digits (int j) \<in> set used}))"
    by simp
next
  fix base :: string and used :: "string list" and i :: nat
  assume taken: "base @ str_digits (int i) \<in> set used"
  have "i \<in> {j. i \<le> j \<and> base @ str_digits (int j) \<in> set used}"
    "i \<notin> {j. Suc i \<le> j \<and> base @ str_digits (int j) \<in> set used}"
    "{j. Suc i \<le> j \<and> base @ str_digits (int j) \<in> set used}
      \<subseteq> {j. i \<le> j \<and> base @ str_digits (int j) \<in> set used}"
    using taken by auto
  then have "{j. Suc i \<le> j \<and> base @ str_digits (int j) \<in> set used}
      \<subset> {j. i \<le> j \<and> base @ str_digits (int j) \<in> set used}"
    by blast
  then have "card {j. Suc i \<le> j \<and> base @ str_digits (int j) \<in> set used}
      < card {j. i \<le> j \<and> base @ str_digits (int j) \<in> set used}"
    by (rule psubset_card_mono [OF suffix_candidates_finite])
  then show "((base, used, Suc i), (base, used, i))
      \<in> measure (\<lambda>(base, used, i). card {j. i \<le> j \<and> base @ str_digits (int j) \<in> set used})"
    by simp
qed

datatype name_error = BlankName

text \<open>
  Modelled from the spec: \<open>makeName(title, scope, reservedNames, maxLength)\<close> (missing).
  An empty normalised name is an error unless blank names are allowed; a name that is
  reserved or taken within the scope gets a suffix, searched from 2.
\<close>

definition make_name ::
  "string \<Rightarrow> nat option \<Rightarrow> string list \<Rightarrow> nat option \<Rightarrow> bool \<Rightarrow> store \<Rightarrow> name_error + string" where
  "make_name title scope reserved_names max_length blank_allowed st =
     (let name = normalize_title title max_length;
          used = reserved_names @ names_in_scope st scope
      in if name = [] then (if blank_allowed then Inr [] else Inl BlankName)
         else if name \<in> set used then Inr (suffix_search name used 2)
         else Inr name)"

text \<open>
  Modelled from the spec: creating an entity (the mixin constructor and \<open>session.add\<close>
  are missing): its name is made and the entity joins the pending ones.
\<close>

definition create_entity ::
  "string \<Rightarrow> nat option \<Rightarrow> string list \<Rightarrow> nat option \<Rightarrow> bool \<Rightarrow> store \<Rightarrow>
   name_error + string \<times> store" where
  "create_entity title scope reserved_names max_length blank_allowed st =
     (case make_name title scope reserved_names max_length blank_allowed st of
        Inl e \<Rightarrow> Inl e
      | Inr name \<Rightarrow> Inr (name, st\<lparr>pending := pending st @ [(scope, name)]\<rparr>))"

text \<open>
  Modelled from the spec: \<open>k\<close> entities with one title, created one after the other as
  the test \<open>test_named\<close> does; the names in order.
\<close>

fun create_entities ::
  "nat \<Rightarrow> string \<Rightarrow> nat option \<Rightarrow> string list \<Rightarrow> nat option \<Rightarrow> bool \<Rightarrow> store \<Rightarrow>
   name_error + string list \<times> store" where
  "create_entities 0 title scope reserved_names max_length blank_allowed st = Inr ([], st)"
| "create_entities (Suc k) title scope reserved_names max_length blank_allowed st =
     (case create_entity title scope reserved_names max_length blank_allowed st of
        Inl e \<Rightarrow> Inl e
      | Inr (name, st1) \<Rightarrow>
          (case create_entities k title scope reserved_names max_length blank_allowed st1 of
             Inl e \<Rightarrow> Inl e
           | Inr (names, st2) \<Rightarrow> Inr (name # names, st2)))"

section \<open>Compound identifiers\<close>

text \<open>
  The mixins that render and look up identifiers (\<open>coaster.sqlalchemy\<close>) and the compact
  encoders (\<open>coaster.utils\<close>) are not among the sources; only their tests are. The
  definitions of this section follow section 4.2 of the specification and the values
  the tests expect.
\<close>

text \<open>
  Modelled from the spec: the primary key of an entity (the model classes are missing),
  an integer or a UUID of 128 bits.
\<close>

datatype primary_key = IntKey int | UuidKey "128 word"

text \<open>Modelled from the spec: a number in a fixed count of lower case hex digits.\<close>

fun hex_fixed :: "nat \<Rightarrow> int \<Rightarrow> string" where
  "hex_fixed 0 n = []"
| "hex_fixed (Suc k) n = hex_fixed k (n div 16) @ [hex_digit (nat (n mod 16))]"

text \<open>
  Modelled from the spec: the hex form of a UUID (\<open>UUID.hex\<close>), 32 hex digits without
  dashes.
\<close>

definition uuid_hex :: "128 word \<Rightarrow> string" where
  "uuid_hex u = hex_fixed 32 (uint u)"

text \<open>
  Modelled from the spec: the dashed form of a UUID (\<open>str(UUID)\<close>), which the tests pass
  to the lookup: the same digits in groups of 8, 4, 4, 4 and 12.
\<close>

definition uuid_dashed :: "128 word \<Rightarrow> string" where
  "uuid_dashed u =
     (let h = uuid_hex u
      in take 8 h @ ''-'' @ take 4 (drop 8 h) @ ''-'' @ take 4 (drop 12 h) @ ''-'' @
         take 4 (drop 16 h) @ ''-'' @ drop 20 h)"

text \<open>
  Modelled from the spec: the alphabet of the compact encoding (\<open>uuid_to_base58\<close> is
  missing). The alphabet and the digit order are those under which the UUID of the
  tests, \<open>74d58857-4a76-11e7-8c27-c38403d0935c\<close>, is \<open>FRn1p6EnzbhydnssMnHqFZ\<close>.
\<close>

definition b58_alphabet :: string where
  "b58_alphabet = ''123456789ABCDEFGHJKLMNPQRSTUVWXYZabcdefghijkmnopqrstuvwxyz''"

text \<open>
  Modelled from the spec: a positive number in base 58, most significant digit first;
  zero has no digits.
\<close>

function b58_digits :: "int \<Rightarrow> string" where
  "b58_digits n =
     (if n \<le> 0 then [] else b58_digits (n div 58) @ [b58_alphabet ! nat (n mod 58)])"
  by pat_completeness auto
termination
  by (relation "measure nat") auto

text \<open>Modelled from the spec: the count of bytes a number needs; zero needs none.\<close>

function byte_length :: "int \<Rightarrow> nat" where
  "byte_length n = (if n \<le> 0 then 0 else Suc (byte_length (n div 256)))"
  by pat_completeness auto
termination
  by (relation "measure nat") auto

text \<open>
  Modelled from the spec: the compact encoding of a UUID (\<open>uuid_to_base58\<close>, missing),
  base 58 over its 16 bytes: each leading zero byte gives the first letter of the
  alphabet, the rest is the number in base 58.
\<close>

definition uuid_to_base58 :: "128 word \<Rightarrow> string" where
  "uuid_to_base58 u =
     replicate (16 - byte_length (uint u)) (b58_alphabet ! 0) @ b58_digits (uint u)"

text \<open>
  Modelled from the spec: \<open>url_id\<close> (missing), the decimal string of an integer key or
  the hex form of a UUID key.
\<close>

definition url_id :: "primary_key \<Rightarrow> string" where
  "url_id key = (case key of IntKey k \<Rightarrow> str_int k | UuidKey u \<Rightarrow> uuid_hex u)"

text \<open>
  Modelled from the spec: \<open>url_id_name\<close> (missing), the compound identifier: the id
  joined with the name by a hyphen.
\<close>

definition url_id_name :: "primary_key \<Rightarrow> string \<Rightarrow> string" where
  "url_id_name key name = url_id key @ ''-'' @ name"

text \<open>
  Modelled from the spec: \<open>url_name_uuid_b58\<close> (missing), the compact variant, with the
  name first and the compact key last, as the tests show it.
\<close>

definition url_name_uuid_b58 :: "128 word \<Rightarrow> string \<Rightarrow> string" where
  "url_name_uuid_b58 u name = name @ ''-'' @ uuid_to_base58 u"

text \<open>Modelled from the spec: the value of a hex digit of either case.\<close>

definition hex_value :: "char \<Rightarrow> int option" where
  "hex_value c =
     (let n = (of_char c :: int) in
        if 48 \<le> n \<and> n \<le> 57 then Some (n - 48)
        else if 97 \<le> n \<and> n \<le> 102 then Some (n - 87)
        else if 65 \<le> n \<and> n \<le> 70 then Some (n - 55)
        else None)"

text \<open>Modelled from the spec: a text of hex digits read as a number.\<close>

definition parse_hex :: "string \<Rightarrow> int option" where
  "parse_hex s =
     (if list_all (\<lambda>c. hex_value c \<noteq> None) s
      then Some (foldl (\<lambda>acc c. 16 * acc + the (hex_value c)) 0 s)
      else None)"

text \<open>
  Modelled from the spec: reading a UUID back (the comparators are missing): 32 hex
  digits, with or without dashes, as the tests pass them. A malformed key gives \<open>None\<close>,
  which compares as no match.
\<close>

definition parse_uuid :: "string \<Rightarrow> 128 word option" where
  "parse_uuid s =
     (let h = filter (\<lambda>c. c \<noteq> CHR ''-'') s
      in if length h = 32 then map_option word_of_int (parse_hex h) else None)"

text \<open>Modelled from the spec: the position of a letter in the alphabet.\<close>

fun index_of :: "'a list \<Rightarrow> 'a \<Rightarrow> nat option" where
  "index_of [] x = None"
| "index_of (y # ys) x = (if x = y then Some 0 else map_option Suc (index_of ys x))"

text \<open>
  Modelled from the spec: reading a compact key back (\<open>uuid_from_base58\<close>, missing): the
  leading first letters are zero bytes, the rest is a number in base 58, and together
  they must make 16 bytes.
\<close>

definition uuid_from_base58 :: "string \<Rightarrow> 128 word option" where
  "uuid_from_base58 s =
     (if list_all (\<lambda>c. index_of b58_alphabet c \<noteq> None) s then
        (let zeros = length (takeWhile (\<lambda>c. c = b58_alphabet ! 0) s);
             v = foldl (\<lambda>acc c. 58 * acc + int (the (index_of b58_alphabet c))) 0
                   (dropWhile (\<lambda>c. c = b58_alphabet ! 0) s)
         in if zeros + byte_length v = 16 then Some (word_of_int v) else None)
      else None)"

text \<open>
  Modelled from the spec: the two kinds of model the lookup serves (the model classes
  are missing), one with integer keys and one with UUID keys.
\<close>

datatype key_kind = IntKind | UuidKind

text \<open>
  Modelled from the spec: reading the decimal string of an integer key back (the
  comparators are missing): the digits, after a minus sign when the string has one;
  anything else is malformed.
\<close>

definition parse_int :: "string \<Rightarrow> int option" where
  "parse_int s =
     (if s \<noteq> [] \<and> hd s = CHR ''-'' then map_option uminus (parse_decimal (tl s))
      else parse_decimal s)"

text \<open>
  Modelled from the spec: the lookup by \<open>url_id\<close> (missing), for a model with integer
  keys or with UUID keys. A malformed key gives \<open>None\<close>, which compares as no match.
\<close>

definition parse_url_id :: "key_kind \<Rightarrow> string \<Rightarrow> primary_key option" where
  "parse_url_id kind s =
     (case kind of
        IntKind \<Rightarrow> map_option IntKey (parse_int s)
      | UuidKind \<Rightarrow> map_option UuidKey (parse_uuid s))"

text \<open>
  Modelled from the spec: the leading key of an incoming compound identifier (the
  comparators are missing). The specification has the lookup ``extract only the leading
  numeric/hex key'' and tolerate the text behind it: for a model with integer keys the
  longest leading run of decimal digits, with the minus sign in front of it when the
  identifier starts with one, as the decimal string of a key is written; for a model
  with UUID keys the longest leading run of hex digits.
\<close>

definition leading_key :: "key_kind \<Rightarrow> string \<Rightarrow> string" where
  "leading_key kind s =
     (case kind of
        IntKind \<Rightarrow>
          (if s \<noteq> [] \<and> hd s = CHR ''-'' then CHR ''-'' # takeWhile is_digit (tl s)
           else takeWhile is_digit s)
      | UuidKind \<Rightarrow> takeWhile (\<lambda>c. hex_value c \<noteq> None) s)"

text \<open>
  Modelled from the spec: the lookup by compound identifier (missing) reads the leading
  key and leaves the rest, the name portion, out of the comparison.
\<close>

definition parse_url_id_name :: "key_kind \<Rightarrow> string \<Rightarrow> primary_key option" where
  "parse_url_id_name kind s = parse_url_id kind (leading_key kind s)"

text \<open>
  Modelled from the spec: the lookup by the compact variant (missing) keeps the text
  after the last hyphen.
\<close>

definition parse_url_name_uuid_b58 :: "string \<Rightarrow> 128 word option" where
  "parse_url_name_uuid_b58 s =
     uuid_from_base58 (rev (takeWhile (\<lambda>c. c \<noteq> CHR ''-'') (rev s)))"

section \<open>Example inputs\<close>

definition fr_login :: frame where
  "fr_login = Frame ''login'' ''app.py'' 10 [(''user'', 1)] None"

definition fr_check :: frame where
  "fr_check = Frame ''check'' ''auth.py'' 42 [(''t'', 1)] (Some fr_login)"

definition fr_login_token :: frame where
  "fr_login_token = Frame ''login'' ''app.py'' 10 [(''auth_token'', 1)] None"

definition fr_check_token :: frame where
  "fr_check_token = Frame ''check'' ''auth.py'' 42 [(''t'', 1)] (Some fr_login_token)"

definition fr_view :: frame where
  "fr_view = Frame ''view'' ''views.py'' 7 [(''x'', 1)] None"

definition h_bad :: heap where
  "h_bad =
     (\<lambda>i. if i = 1 then PInt 5
          else if i = 2 then PObj (Inl (Exn ''RuntimeError''))
          else if i = 3 then PStr ''abc''
          else PNone)"

definition fr_bad :: frame where
  "fr_bad = Frame ''check'' ''auth.py'' 42 [(''t'', 1), (''bad'', 2), (''n'', 3)] None"

definition env_bad :: environment where
  "env_bad = \<lparr>env_heap = h_bad, print_exception = Inr ''Traceback (most recent call last):'',
      interrupt = None, context_sections = Inr []\<rparr>"

definition long_record :: log_record where
  "long_record =
     \<lparr>rec_module = ''views'', lineno = 7, levelname = ''ERROR'', message = ''boom'',
      exc_text = None,
      rec_exc_info = Some \<lparr>exc_repr = ''ValueError()'',
        format_exception =
          [''Traceback (most recent call last):'' @ [CHR 0x0A],
           ''  File views.py, line 7, in view'' @ [CHR 0x0A] @
             ''    x'' @ replicate 5000 CHR ''y'' @ ''z'' @ [CHR 0x0A],
           ''ValueError: boom'' @ [CHR 0x0A]]\<rparr>\<rparr>"

definition long_head :: string where
  "long_head =
     ''<b>ERROR</b> in <b>app</b>: boom'' @ [CHR 0x0A, CHR 0x0A] @
     ''ValueError: boom'' @ [CHR 0x0A, CHR 0x0A] @
     ''File views.py, line 7, in view'' @ [CHR 0x0A]"

definition error_record :: log_record where
  "error_record =
     \<lparr>rec_module = ''views'', lineno = 7, levelname = ''ERROR'', message = ''boom'',
      exc_text = None, rec_exc_info = None\<rparr>"

definition network_down :: network where
  "network_down = (\<lambda>url. Some (Exn ''ConnectionError''))"

definition error_webhook :: webhook where
  "error_webhook =
     \<lparr>wh_url = Some ''https://hooks.slack.com/services/T'', wh_levelnames = Some [''ERROR''],
      wh_channel = None, wh_username = None, wh_icon_emoji = None\<rparr>"

definition hello_store :: store where
  "hello_store =
     \<lparr>committed = [(Some 2, ''hello''), (Some 1, ''other''), (None, ''hello''),
       (Some 1, ''hello7'')],
      pending = [(Some 1, ''draft'')]\<rparr>"

definition test_uuid :: "128 word" where
  "test_uuid = 0x74d588574a7611e78c27c38403d0935c"

section \<open>Properties of filtered_value\<close>

text \<open>
  C2. A key that matches the sensitive keyword pattern makes \<open>filtered_value\<close> return
  the indicator object, whatever the value is; both \<open>repr\<close> and \<open>str\<close> of the result
  are the fixed marker \<open>[Filtered]\<close>.
\<close>

theorem sensitive_key_filtered:
  assumes "filter_re_search key"
  shows "filtered_value (PStr key) value = FilteredValueIndicator
    \<and> py_repr cr (filtered_value (PStr key) value) = Inr ''[Filtered]''
    \<and> py_str cr (filtered_value (PStr key) value) = Inr ''[Filtered]''"
  using assms by (simp add: filtered_value_def key_is_sensitive_def)

theorem sensitive_key_filtered_witness:
  "filter_re_search ''api_key''
    \<and> filtered_value (PStr ''api_key'') (PStr ''sk-12345'') = FilteredValueIndicator
    \<and> py_repr FilteredLambda (filtered_value (PStr ''api_key'') (PStr ''sk-12345''))
        = Inr ''[Filtered]''"
proof -
  have h: "filter_re_search ''api_key''" by code_simp
  from sensitive_key_filtered [OF h, of "PStr ''sk-12345''" FilteredLambda] h
  show ?thesis by simp
qed

text \<open>
  C10. When the key is not a string the keyword test is never made: a value that is
  not a string comes back unchanged, and a string value comes back with its card
  number matches replaced; nothing else happens to it.
\<close>

theorem non_string_key_not_filtered:
  assumes "\<not> isinstance_str key"
  shows "filtered_value key value =
    (case value of PStr v \<Rightarrow> PStr (card_re_sub v) | _ \<Rightarrow> value)"
  using assms
  by (cases key) (simp_all add: filtered_value_def key_is_sensitive_def isinstance_str_def)

theorem non_string_key_not_filtered_witness:
  "\<not> isinstance_str (PInt 7)
   \<and> filtered_value (PInt 7) (PInt 4111111111111111) = PInt 4111111111111111
   \<and> filtered_value (PInt 7) (PStr ''sk-12345'') = PStr ''sk-12345''"
proof -
  have h: "\<not> isinstance_str (PInt 7)" by (simp add: isinstance_str_def)
  have c: "card_re_sub ''sk-12345'' = ''sk-12345''" by code_simp
  from non_string_key_not_filtered [OF h, of "PInt 4111111111111111"]
    non_string_key_not_filtered [OF h, of "PStr ''sk-12345''"] h c
  show ?thesis by simp
qed

text \<open>
  C5, as stated, fails for a value that is not a string: the integer
  \<open>4111111111111111\<close> has a string form that the card pattern matches from end to
  end, yet under the key \<open>order\<close> it is returned as it is and rendered digit by digit.
\<close>

theorem card_number_int_counterexample:
  "re_search card_re (str_int 4111111111111111) 0 = Some (0, 16)
   \<and> py_str FilteredLambda (PInt 4111111111111111) = Inr (str_int 4111111111111111)
   \<and> \<not> key_is_sensitive (PStr ''order'')
   \<and> filtered_value (PStr ''order'') (PInt 4111111111111111) = PInt 4111111111111111
   \<and> py_repr FilteredLambda (filtered_value (PStr ''order'') (PInt 4111111111111111))
       = Inr ''4111111111111111''
   \<and> \<not> contains ''[Filtered]'' ''4111111111111111''"
  by code_simp

text \<open>
  C5, amended to string values. If the card pattern matches a string value (the first
  match spanning positions \<open>i\<close> to \<open>e\<close>), then under any key the digit run is gone from
  the result: a sensitive key replaces the whole value by the indicator, any other key
  gives the text before the match, the marker, and the rest with its matches replaced
  in turn. A value that is not a string is masked only by a sensitive key.
\<close>

theorem card_number_in_string_masked:
  assumes "re_search card_re s 0 = Some (i, e)"
  shows "filtered_value key (PStr s) =
      (if key_is_sensitive key then FilteredValueIndicator
       else PStr (take i s @ ''[Filtered]'' @ card_re_sub_from s e))
    \<and> (\<not> isinstance_str v \<longrightarrow>
         filtered_value key v = (if key_is_sensitive key then FilteredValueIndicator else v))"
  using assms
  by (cases v) (simp_all add: filtered_value_def card_re_sub_def isinstance_str_def)

theorem card_number_in_string_masked_witness:
  "re_search card_re ''pay 4111 1111 1111 1111 now'' 0 = Some (4, 23)
   \<and> filtered_value (PStr ''note'') (PStr ''pay 4111 1111 1111 1111 now'')
       = PStr ''pay [Filtered] now''
   \<and> \<not> isinstance_str (PInt 4111111111111111)
   \<and> filtered_value (PStr ''note'') (PInt 4111111111111111) = PInt 4111111111111111"
proof -
  have h: "re_search card_re ''pay 4111 1111 1111 1111 now'' 0 = Some (4, 23)" by code_simp
  have k: "\<not> key_is_sensitive (PStr ''note'')" by code_simp
  have r: "card_re_sub_from ''pay 4111 1111 1111 1111 now'' 23 = '' now''" by code_simp
  have n: "\<not> isinstance_str (PInt 4111111111111111)" by (simp add: isinstance_str_def)
  from card_number_in_string_masked [OF h, of "PStr ''note''" "PInt 4111111111111111"] h k r n
  show ?thesis by simp
qed

section \<open>Properties of the stack dump\<close>


lemma dump_locals_append:
  "dump_locals cr h name cache (xs @ ys) =
     (let (cache1, out1) = dump_locals cr h name cache xs;
          (cache2, out2) = dump_locals cr h name cache1 ys
      in (cache2, out1 @ out2))"
  by (induction xs arbitrary: cache) (simp_all add: split_beta Let_def)

lemma dump_frames_append:
  "dump_frames cr h cache (fs @ gs) =
     (let (cache1, out1) = dump_frames cr h cache fs;
          (cache2, out2) = dump_frames cr h cache1 gs
      in (cache2, out1 @ out2))"
  by (induction fs arbitrary: cache) (simp_all add: split_beta Let_def)

lemma render_local_keeps:
  "cache a = Some key \<Longrightarrow> fst (render_local cr h name cache var) a = Some key"
  by (cases var) (auto simp: render_local_def Let_def split: option.splits)

lemma dump_locals_keeps:
  "cache a = Some key \<Longrightarrow> fst (dump_locals cr h name cache vars) a = Some key"
proof (induction vars arbitrary: cache)
  case Nil
  then show ?case by simp
next
  case (Cons var vars)
  from Cons.prems have "fst (render_local cr h name cache var) a = Some key"
    by (rule render_local_keeps)
  then have "fst (dump_locals cr h name (fst (render_local cr h name cache var)) vars) a = Some key"
    by (rule Cons.IH)
  then show ?case by (simp add: split_beta Let_def)
qed

lemma dump_frames_keeps:
  "cache a = Some key \<Longrightarrow> fst (dump_frames cr h cache fs) a = Some key"
proof (induction fs arbitrary: cache)
  case Nil
  then show ?case by simp
next
  case (Cons f fs)
  from Cons.prems have "fst (dump_locals cr h (co_name f) cache (f_locals f)) a = Some key"
    by (rule dump_locals_keeps)
  then have "fst (dump_frames cr h (fst (dump_locals cr h (co_name f) cache (f_locals f))) fs) a
      = Some key"
    by (rule Cons.IH)
  then show ?case by (simp add: split_beta Let_def)
qed

lemma render_local_first:
  "cache a = None \<Longrightarrow> fst (render_local cr h name cache (attr, a)) a = Some (name @ ''.'' @ attr)"
  by (simp add: render_local_def Let_def)

lemma render_local_repeat:
  "cache a = Some key \<Longrightarrow>
   render_local cr h name cache (attr, a) =
     (cache, var_label attr @
        println (if filter_re_search attr then ''[Filtered]''
                 else ''<same as prior '' @ repr_str key @ ''>''))"
  by (simp add: render_local_def local_value_def filtered_value_def key_is_sensitive_def Let_def)

lemma dump_frame_split:
  assumes "f_locals f = before @ var # after"
  shows "dump_frames cr h cache (fs1 @ f # fs2) =
    (let (c0, o0) = dump_frames cr h cache fs1;
         (c1, o1) = dump_locals cr h (co_name f) c0 before;
         (c2, o2) = render_local cr h (co_name f) c1 var;
         (c3, o3) = dump_locals cr h (co_name f) c2 after;
         (c4, o4) = dump_frames cr h c3 fs2
     in (c4, o0 @ frame_header f @ o1 @ o2 @ o3 @ o4))"
  using assms by (simp add: dump_frames_append dump_locals_append split_beta Let_def)

text \<open>
  C6, amended. Let an object \<open>a\<close> appear as local \<open>v0\<close> of frame \<open>f0\<close>, not seen before
  in the dump, and again as local \<open>v1\<close> of a later frame \<open>f1\<close>. The dump of the whole
  stack is then the concatenation below: the line of the second occurrence is the
  label of \<open>v1\<close> followed by the back-reference \<open><same as prior 'f0.v0'>\<close>, or by
  \<open>[Filtered]\<close> when the name \<open>v1\<close> matches the sensitive keyword pattern. In neither
  case is the value rendered a second time.
\<close>

theorem repeated_object_back_reference:
  fixes cr :: repr_fn and h :: heap and cache :: value_cache
    and f0 f1 :: frame and fs1 fs2 fs3 :: "frame list"
    and before0 after0 before1 after1 :: "(string \<times> nat) list"
    and v0 v1 :: string and a :: nat
  defines "c0 \<equiv> fst (dump_frames cr h cache fs1)"
  defines "c1 \<equiv> fst (dump_locals cr h (co_name f0) c0 before0)"
  defines "c2 \<equiv> fst (render_local cr h (co_name f0) c1 (v0, a))"
  defines "c3 \<equiv> fst (dump_locals cr h (co_name f0) c2 after0)"
  defines "c4 \<equiv> fst (dump_frames cr h c3 fs2)"
  defines "c5 \<equiv> fst (dump_locals cr h (co_name f1) c4 before1)"
  defines "c6 \<equiv> fst (dump_locals cr h (co_name f1) c5 after1)"
  assumes f0: "f_locals f0 = before0 @ (v0, a) # after0"
    and f1: "f_locals f1 = before1 @ (v1, a) # after1"
    and fresh: "c1 a = None"
  shows "snd (dump_frames cr h cache (fs1 @ f0 # fs2 @ f1 # fs3)) =
    snd (dump_frames cr h cache fs1) @
    frame_header f0 @
    snd (dump_locals cr h (co_name f0) c0 before0) @
    snd (render_local cr h (co_name f0) c1 (v0, a)) @
    snd (dump_locals cr h (co_name f0) c2 after0) @
    snd (dump_frames cr h c3 fs2) @
    frame_header f1 @
    snd (dump_locals cr h (co_name f1) c4 before1) @
    var_label v1 @
    println (if filter_re_search v1 then ''[Filtered]''
             else ''<same as prior '' @ repr_str (co_name f0 @ ''.'' @ v0) @ ''>'') @
    snd (dump_locals cr h (co_name f1) c5 after1) @
    snd (dump_frames cr h c6 fs3)"
proof -
  have "c2 a = Some (co_name f0 @ ''.'' @ v0)"
    unfolding c2_def using fresh by (rule render_local_first)
  then have "c3 a = Some (co_name f0 @ ''.'' @ v0)"
    unfolding c3_def by (rule dump_locals_keeps)
  then have "c4 a = Some (co_name f0 @ ''.'' @ v0)"
    unfolding c4_def by (rule dump_frames_keeps)
  then have "c5 a = Some (co_name f0 @ ''.'' @ v0)"
    unfolding c5_def by (rule dump_locals_keeps)
  then have second: "render_local cr h (co_name f1) c5 (v1, a) =
     (c5, var_label v1 @
        println (if filter_re_search v1 then ''[Filtered]''
                 else ''<same as prior '' @ repr_str (co_name f0 @ ''.'' @ v0) @ ''>''))"
    by (rule render_local_repeat)
  have a: "dump_frames cr h cache (fs1 @ f0 # fs2 @ f1 # fs3) =
    (let (k0, o0) = dump_frames cr h cache fs1;
         (k1, o1) = dump_locals cr h (co_name f0) k0 before0;
         (k2, o2) = render_local cr h (co_name f0) k1 (v0, a);
         (k3, o3) = dump_locals cr h (co_name f0) k2 after0;
         (k4, o4) = dump_frames cr h k3 (fs2 @ f1 # fs3)
     in (k4, o0 @ frame_header f0 @ o1 @ o2 @ o3 @ o4))"
    using f0 by (rule dump_frame_split)
  have b: "dump_frames cr h c3 (fs2 @ f1 # fs3) =
    (let (k0, o0) = dump_frames cr h c3 fs2;
         (k1, o1) = dump_locals cr h (co_name f1) k0 before1;
         (k2, o2) = render_local cr h (co_name f1) k1 (v1, a);
         (k3, o3) = dump_locals cr h (co_name f1) k2 after1;
         (k4, o4) = dump_frames cr h k3 fs3
     in (k4, o0 @ frame_header f1 @ o1 @ o2 @ o3 @ o4))"
    using f1 by (rule dump_frame_split)
  have b': "snd (dump_frames cr h c3 (fs2 @ f1 # fs3)) =
     snd (dump_frames cr h c3 fs2) @ frame_header f1 @
     snd (dump_locals cr h (co_name f1) c4 before1) @
     snd (render_local cr h (co_name f1) c5 (v1, a)) @
     snd (dump_locals cr h (co_name f1) (fst (render_local cr h (co_name f1) c5 (v1, a))) after1) @
     snd (dump_frames cr h
       (fst (dump_locals cr h (co_name f1) (fst (render_local cr h (co_name f1) c5 (v1, a))) after1)) fs3)"
    unfolding b by (simp add: split_beta Let_def c4_def c5_def)
  have a': "snd (dump_frames cr h cache (fs1 @ f0 # fs2 @ f1 # fs3)) =
     snd (dump_frames cr h cache fs1) @ frame_header f0 @
     snd (dump_locals cr h (co_name f0) c0 before0) @
     snd (render_local cr h (co_name f0) c1 (v0, a)) @
     snd (dump_locals cr h (co_name f0) c2 after0) @
     snd (dump_frames cr h c3 (fs2 @ f1 # fs3))"
    unfolding a by (simp add: split_beta Let_def c0_def c1_def c2_def c3_def)
  show ?thesis
    unfolding a' b' second by (simp add: c6_def)
qed

theorem repeated_object_back_reference_witness:
  "frame_stack fr_check = [fr_check, fr_login]
   \<and> snd (dump_frames FilteredLambda (\<lambda>i. PStr ''abc'') Map.empty (frame_stack fr_check)) =
     frame_header fr_check @ var_label ''t'' @ println (repr_str ''abc'') @
     frame_header fr_login @ var_label ''user'' @
     println (''<same as prior '' @ repr_str ''check.t'' @ ''>'')"
proof -
  have s: "frame_stack fr_check = [fr_check, fr_login]"
    by (simp add: fr_check_def fr_login_def)
  have k: "\<not> filter_re_search ''user''" "\<not> filter_re_search ''t''" by code_simp+
  have c: "card_re_sub ''abc'' = ''abc''" by code_simp
  have r: "snd (render_local FilteredLambda (\<lambda>i. PStr ''abc'') ''check'' Map.empty (''t'', 1))
      = var_label ''t'' @ println (repr_str ''abc'')"
    using k c
    by (simp add: render_local_def local_value_def filtered_value_def key_is_sensitive_def)
  from repeated_object_back_reference [where cr = FilteredLambda and h = "\<lambda>i. PStr ''abc''"
      and cache = Map.empty and ?fs1.0 = "[]" and ?f0.0 = fr_check and ?fs2.0 = "[]"
      and ?f1.0 = fr_login and ?fs3.0 = "[]" and ?before0.0 = "[]" and ?v0.0 = "''t''" and a = 1
      and ?after0.0 = "[]" and ?before1.0 = "[]" and ?v1.0 = "''user''" and ?after1.0 = "[]"]
  have "snd (dump_frames FilteredLambda (\<lambda>i. PStr ''abc'') Map.empty [fr_check, fr_login]) =
     frame_header fr_check @
     snd (render_local FilteredLambda (\<lambda>i. PStr ''abc'') ''check'' Map.empty (''t'', 1)) @
     frame_header fr_login @ var_label ''user'' @
     println (''<same as prior '' @ repr_str ''check.t'' @ ''>'')"
    using k by (simp add: fr_check_def fr_login_def)
  with s r show ?thesis by simp
qed

text \<open>
  C6, as stated, fails when the name of the second occurrence is a sensitive keyword:
  \<open>filtered_value\<close> is applied to the \<open>RepeatValueIndicator\<close> as to any value, and the
  key test comes first. The object bound to \<open>t\<close> in \<open>check\<close> and to \<open>auth_token\<close> in
  \<open>login\<close> is rendered as \<open>[Filtered]\<close> the second time, not as a back-reference.
\<close>

theorem back_reference_sensitive_name_counterexample:
  "frame_stack fr_check_token = [fr_check_token, fr_login_token]
   \<and> snd (dump_frames FilteredLambda (\<lambda>i. PStr ''abc'') Map.empty (frame_stack fr_check_token)) =
     frame_header fr_check_token @ var_label ''t'' @ println (repr_str ''abc'') @
     frame_header fr_login_token @ var_label ''auth_token'' @ println ''[Filtered]''
   \<and> println ''[Filtered]'' \<noteq> println (''<same as prior '' @ repr_str ''check.t'' @ ''>'')"
  by code_simp

text \<open>
  C7. Let the stack of the failure hold frame \<open>f\<close>, and let rendering the value of its
  local \<open>attr\<close> raise. When \<open>traceback.print_exception\<close> and the context sections
  complete and the loop over the stack is not interrupted, the method returns this
  report: the traceback, the two headings, the dump of the frames and locals before the
  variable, the label of \<open>attr\<close> with the placeholder \<open><ERROR WHILE PRINTING VALUE>\<close>,
  the dump of the remaining locals and frames, and the context sections. The lock is
  free again and \<open>Config.__repr__\<close> is what it was.
\<close>

theorem value_error_placeholder:
  fixes env :: environment and f :: frame and fs1 fs2 :: "frame list"
    and before after :: "(string \<times> nat) list" and attr :: string and a :: nat
  defines "h \<equiv> env_heap env"
  defines "c0 \<equiv> fst (dump_frames FilteredLambda h Map.empty fs1)"
  defines "c1 \<equiv> fst (dump_locals FilteredLambda h (co_name f) c0 before)"
  defines "c2 \<equiv> fst (render_local FilteredLambda h (co_name f) c1 (attr, a))"
  defines "c3 \<equiv> fst (dump_locals FilteredLambda h (co_name f) c2 after)"
  assumes stack: "frame_stack (tb_frame (innermost_tb tb)) = fs1 @ f # fs2"
    and f: "f_locals f = before @ (attr, a) # after"
    and raises: "py_repr FilteredLambda (filtered_value (PStr attr) (local_value h c1 a)) = Inl e"
    and env: "print_exception env = Inr tb_text" "interrupt env = None"
      "context_sections env = Inr ctx"
  shows "formatException st env tb =
    (st\<lparr>lock_locked := False\<rparr>,
     Inr (strip_last_newline
       (tb_text @
        println (CHR 0x0A # ''----------'' @ [CHR 0x0A]) @
        println ''Stack frames (most recent call first):'' @
        snd (dump_frames FilteredLambda h Map.empty fs1) @
        frame_header f @
        snd (dump_locals FilteredLambda h (co_name f) c0 before) @
        var_label attr @ println ''<ERROR WHILE PRINTING VALUE>'' @
        snd (dump_locals FilteredLambda h (co_name f) c2 after) @
        snd (dump_frames FilteredLambda h c3 fs2) @
        ctx)))"
proof -
  have line: "snd (render_local FilteredLambda h (co_name f) c1 (attr, a)) =
      var_label attr @ println ''<ERROR WHILE PRINTING VALUE>''"
    using raises by (simp add: render_local_def Let_def)
  have "dump_frames FilteredLambda h Map.empty (fs1 @ f # fs2) =
    (let (k0, o0) = dump_frames FilteredLambda h Map.empty fs1;
         (k1, o1) = dump_locals FilteredLambda h (co_name f) k0 before;
         (k2, o2) = render_local FilteredLambda h (co_name f) k1 (attr, a);
         (k3, o3) = dump_locals FilteredLambda h (co_name f) k2 after;
         (k4, o4) = dump_frames FilteredLambda h k3 fs2
     in (k4, o0 @ frame_header f @ o1 @ o2 @ o3 @ o4))"
    using f by (rule dump_frame_split)
  then have dump: "snd (dump_frames FilteredLambda h Map.empty (fs1 @ f # fs2)) =
      snd (dump_frames FilteredLambda h Map.empty fs1) @ frame_header f @
      snd (dump_locals FilteredLambda h (co_name f) c0 before) @
      var_label attr @ println ''<ERROR WHILE PRINTING VALUE>'' @
      snd (dump_locals FilteredLambda h (co_name f) c2 after) @
      snd (dump_frames FilteredLambda h c3 fs2)"
    by (simp add: split_beta Let_def c0_def c1_def c2_def c3_def line [unfolded c1_def c0_def])
  have "stack_dump FilteredLambda h None (fs1 @ f # fs2) =
      Inr (snd (dump_frames FilteredLambda h Map.empty (fs1 @ f # fs2)))"
    by (simp add: stack_dump_def)
  with stack env dump show ?thesis
    by (simp add: formatException_def Let_def h_def)
qed

theorem value_error_placeholder_witness:
  "frame_stack (tb_frame (innermost_tb (Traceback fr_bad None))) = [] @ fr_bad # []
   \<and> f_locals fr_bad = [(''t'', 1)] @ (''bad'', 2) # [(''n'', 3)]
   \<and> py_repr FilteredLambda (filtered_value (PStr ''bad'') (h_bad 2)) = Inl (Exn ''RuntimeError'')
   \<and> print_exception env_bad = Inr ''Traceback (most recent call last):''
   \<and> interrupt env_bad = None \<and> context_sections env_bad = Inr []
   \<and> formatException \<lparr>lock_locked = False, config_repr = ConfigRepr\<rparr> env_bad
         (Traceback fr_bad None) =
       (\<lparr>lock_locked = False, config_repr = ConfigRepr\<rparr>,
        Inr (''Traceback (most recent call last):'' @
             println (CHR 0x0A # ''----------'' @ [CHR 0x0A]) @
             println ''Stack frames (most recent call first):'' @
             frame_header fr_bad @ var_label ''t'' @ println ''5'' @
             var_label ''bad'' @ println ''<ERROR WHILE PRINTING VALUE>'' @
             var_label ''n'' @ repr_str ''abc''))"
proof -
  have s: "frame_stack (tb_frame (innermost_tb (Traceback fr_bad None))) = [] @ fr_bad # []"
    by (simp add: fr_bad_def)
  have f: "f_locals fr_bad = [(''t'', 1)] @ (''bad'', 2) # [(''n'', 3)]"
    by (simp add: fr_bad_def)
  have k: "\<not> key_is_sensitive (PStr ''bad'')" "\<not> key_is_sensitive (PStr ''t'')"
    "\<not> key_is_sensitive (PStr ''n'')" by code_simp+
  have d: "str_int 5 = ''5''" "card_re_sub ''abc'' = ''abc''" by code_simp+
  have r: "py_repr FilteredLambda (filtered_value (PStr ''bad'')
      (local_value (env_heap env_bad)
         (fst (dump_locals FilteredLambda (env_heap env_bad) (co_name fr_bad)
           (fst (dump_frames FilteredLambda (env_heap env_bad) Map.empty [])) [(''t'', 1)])) 2))
      = Inl (Exn ''RuntimeError'')"
    using k
    by (simp add: filtered_value_def local_value_def h_bad_def render_local_def fr_bad_def
        env_bad_def)
  have e: "print_exception env_bad = Inr ''Traceback (most recent call last):''"
    "interrupt env_bad = None" "context_sections env_bad = Inr []"
    by (simp_all add: env_bad_def)
  have h: "env_heap env_bad = h_bad" by (simp add: env_bad_def)
  from value_error_placeholder [OF s f r e,
      of "\<lparr>lock_locked = False, config_repr = ConfigRepr\<rparr>"] k d
  have "formatException \<lparr>lock_locked = False, config_repr = ConfigRepr\<rparr> env_bad
         (Traceback fr_bad None) =
       (\<lparr>lock_locked = False, config_repr = ConfigRepr\<rparr>,
        Inr (''Traceback (most recent call last):'' @
             println (CHR 0x0A # ''----------'' @ [CHR 0x0A]) @
             println ''Stack frames (most recent call first):'' @
             frame_header fr_bad @ var_label ''t'' @ println ''5'' @
             var_label ''bad'' @ println ''<ERROR WHILE PRINTING VALUE>'' @
             var_label ''n'' @ repr_str ''abc''))"
    by (simp add: h render_local_def local_value_def filtered_value_def h_bad_def fr_bad_def
        strip_last_newline_def println_def butlast_append)
  moreover have "py_repr FilteredLambda (filtered_value (PStr ''bad'') (h_bad 2))
      = Inl (Exn ''RuntimeError'')"
    using k by (simp add: filtered_value_def h_bad_def)
  ultimately show ?thesis using s f e by simp
qed

lemma formatException_releases_lock:
  "\<not> lock_locked st \<Longrightarrow> \<not> lock_locked (fst (formatException st env tb))"
  by (simp add: formatException_def Let_def split: sum.splits)

lemma formatException_restores_on_completion:
  "stack_dump FilteredLambda (env_heap env) (interrupt env)
      (frame_stack (tb_frame (innermost_tb tb))) = Inr dump
   \<Longrightarrow> config_repr (fst (formatException st env tb)) = config_repr st"
  by (simp add: formatException_def Let_def split: sum.splits)

text \<open>
  C4 at the failing input: a \<open>KeyboardInterrupt\<close> raised while the header of the first
  frame is printed leaves the \<open>with\<close> block before the assignment that restores
  \<open>Config.__repr__\<close>. The lock is released, the exception reaches the caller, and
  \<open>Config.__repr__\<close> stays the filtering lambda.
\<close>

theorem formatException_interrupted_keeps_patch:
  "formatException \<lparr>lock_locked = False, config_repr = ConfigRepr\<rparr>
     \<lparr>env_heap = (\<lambda>i. PNone), print_exception = Inr ''Traceback (most recent call last):'',
      interrupt = Some (0, Exn ''KeyboardInterrupt''), context_sections = Inr []\<rparr>
     (Traceback fr_view None)
   = (\<lparr>lock_locked = False, config_repr = FilteredLambda\<rparr>, Inl (Exn ''KeyboardInterrupt''))"
  by (simp add: formatException_def stack_dump_def fr_view_def)

section \<open>Properties of the Telegram message\<close>

declare py_count.simps [simp del]

lemma starts_with_iff: "starts_with p s \<longleftrightarrow> (\<exists>r. s = p @ r)"
  by (induction p s rule: starts_with.induct) auto

lemma py_count_Nil: "p \<noteq> [] \<Longrightarrow> py_count p [] = 0"
  by (subst py_count.simps) simp

lemma py_count_hit:
  "p \<noteq> [] \<Longrightarrow> py_count p (p @ r) = Suc (py_count p r)"
  by (subst py_count.simps) (simp add: starts_with_iff)

lemma py_count_miss:
  "\<not> starts_with p (c # s) \<Longrightarrow> py_count p (c # s) = py_count p s"
  by (subst py_count.simps) (auto simp: starts_with_iff)

lemma py_count_short: "length s < length p \<Longrightarrow> py_count p s = 0"
proof (induction s)
  case Nil
  then show ?case by (simp add: py_count_Nil)
next
  case (Cons c s)
  have "\<not> starts_with p (c # s)"
  proof
    assume "starts_with p (c # s)"
    then obtain r where "c # s = p @ r" by (auto simp: starts_with_iff)
    then have "length (c # s) = length p + length r" by (metis length_append)
    with Cons.prems show False by simp
  qed
  with Cons show ?case by (simp add: py_count_miss)
qed

lemma py_count_skip:
  "hd p \<notin> set t \<Longrightarrow> p \<noteq> [] \<Longrightarrow> py_count p (t @ s) = py_count p s"
proof (induction t)
  case Nil
  then show ?case by simp
next
  case (Cons c t)
  then have "\<not> starts_with p (c # t @ s)" by (cases p) (auto simp: starts_with_iff)
  with Cons show ?case by (simp add: py_count_miss)
qed

lemma py_count_append_tag:
  assumes p: "p = x # q" "x \<notin> set q"
  shows "py_count p (a @ x # u) = py_count p a + py_count p (x # u)"
proof (induction a rule: length_induct)
  case (1 a)
  show ?case
  proof (cases a)
    case Nil
    with p show ?thesis by (simp add: py_count_Nil)
  next
    case (Cons c a')
    show ?thesis
    proof (cases "starts_with p a")
      case True
      then obtain r where r: "a = p @ r" by (auto simp: starts_with_iff)
      with p have "length r < length a" by simp
      with 1 have "py_count p (r @ x # u) = py_count p r + py_count p (x # u)" by blast
      moreover have "py_count p (a @ x # u) = Suc (py_count p (r @ x # u))"
        using py_count_hit [of p "r @ x # u"] p r by simp
      moreover have "py_count p a = Suc (py_count p r)"
        using py_count_hit [of p r] p r by simp
      ultimately show ?thesis by simp
    next
      case False
      have "\<not> starts_with p (a @ x # u)"
      proof
        assume "starts_with p (a @ x # u)"
        then obtain r where "a @ x # u = p @ r" by (auto simp: starts_with_iff)
        then obtain us where "(a = p @ us \<and> us @ x # u = r) \<or> (a @ us = p \<and> x # u = us @ r)"
          by (auto simp: append_eq_append_conv2)
        with False have us: "a @ us = p" "x # u = us @ r" by (auto simp: starts_with_iff)
        with False have "us \<noteq> []" by (auto simp: starts_with_iff)
        with us(2) have "x \<in> set us" by (cases us) auto
        with us(1) Cons p show False by auto
      qed
      with Cons have "py_count p (a @ x # u) = py_count p (a' @ x # u)"
        by (simp add: py_count_miss)
      moreover from False Cons have "py_count p a = py_count p a'"
        by (simp add: py_count_miss)
      moreover from Cons 1 have "py_count p (a' @ x # u) = py_count p a' + py_count p (x # u)"
        by simp
      ultimately show ?thesis by simp
    qed
  qed
qed

lemma py_count_append_other:
  assumes p: "p \<noteq> []" "e \<notin> set p"
  shows "py_count p (a @ [e]) = py_count p a"
proof (induction a rule: length_induct)
  case (1 a)
  show ?case
  proof (cases a)
    case Nil
    from p have "\<not> starts_with p [e]" by (cases p) (auto simp: starts_with_iff)
    with Nil p show ?thesis by (simp add: py_count_miss py_count_Nil)
  next
    case (Cons c a')
    show ?thesis
    proof (cases "starts_with p a")
      case True
      then obtain r where r: "a = p @ r" by (auto simp: starts_with_iff)
      with p have "length r < length a" by simp
      with 1 have "py_count p (r @ [e]) = py_count p r" by blast
      moreover have "py_count p (a @ [e]) = Suc (py_count p (r @ [e]))"
        using py_count_hit [of p "r @ [e]"] p r by simp
      moreover have "py_count p a = Suc (py_count p r)"
        using py_count_hit [of p r] p r by simp
      ultimately show ?thesis by simp
    next
      case False
      have "\<not> starts_with p (a @ [e])"
      proof
        assume "starts_with p (a @ [e])"
        then obtain r where "a @ [e] = p @ r" by (auto simp: starts_with_iff)
        then obtain us where "(a = p @ us \<and> us @ [e] = r) \<or> (a @ us = p \<and> [e] = us @ r)"
          by (auto simp: append_eq_append_conv2)
        with False have us: "a @ us = p" "[e] = us @ r" by (auto simp: starts_with_iff)
        with False have "us \<noteq> []" by (auto simp: starts_with_iff)
        with us(2) have "e \<in> set us" by (cases us) auto
        with us(1) p show False by auto
      qed
      with Cons have "py_count p (a @ [e]) = py_count p (a' @ [e])"
        by (simp add: py_count_miss)
      moreover from False Cons have "py_count p a = py_count p a'"
        by (simp add: py_count_miss)
      moreover from Cons 1 have "py_count p (a' @ [e]) = py_count p a'"
        by simp
      ultimately show ?thesis by simp
    qed
  qed
qed


lemma pre_text_append:
  "pre_text b s b1 \<Longrightarrow> pre_text b1 t b2 \<Longrightarrow> pre_text b (s @ t) b2"
proof (induction rule: pre_text.induct)
  case (pt_Nil b)
  then show ?case by simp
next
  case (pt_Plain t' b s b')
  then show ?case using pre_text.pt_Plain [of t' b "s @ t" b2] by simp
next
  case (pt_Open s b')
  then show ?case using pre_text.pt_Open [of "s @ t" b2] by simp
next
  case (pt_Close s b')
  then show ?case using pre_text.pt_Close [of "s @ t" b2] by simp
next
  case (pt_Bold b s b')
  then show ?case using pre_text.pt_Bold [of b "s @ t" b2] by simp
next
  case (pt_BoldEnd b s b')
  then show ?case using pre_text.pt_BoldEnd [of b "s @ t" b2] by simp
qed

lemma pre_text_plain: "CHR ''<'' \<notin> set t \<Longrightarrow> pre_text b t b"
  using pt_Plain [of t b "[]" b] pt_Nil by simp

lemma take_tag:
  "take n (tag @ s) = (if length tag \<le> n then tag @ take (n - length tag) s else take n tag)"
  by simp

lemma count_open_open: "py_count ''<pre>'' (''<pre>'' @ s) = Suc (py_count ''<pre>'' s)"
  by (rule py_count_hit) simp

lemma count_close_close: "py_count ''</pre>'' (''</pre>'' @ s) = Suc (py_count ''</pre>'' s)"
  by (rule py_count_hit) simp

lemma count_open_close: "py_count ''<pre>'' (''</pre>'' @ s) = py_count ''<pre>'' s"
proof -
  have "py_count ''<pre>'' (''</pre>'' @ s) = py_count ''<pre>'' (''/pre>'' @ s)"
    by (simp add: py_count_miss)
  also have "\<dots> = py_count ''<pre>'' s"
    by (rule py_count_skip) simp_all
  finally show ?thesis .
qed

lemma count_close_open: "py_count ''</pre>'' (''<pre>'' @ s) = py_count ''</pre>'' s"
proof -
  have "py_count ''</pre>'' (''<pre>'' @ s) = py_count ''</pre>'' (''pre>'' @ s)"
    by (simp add: py_count_miss)
  also have "\<dots> = py_count ''</pre>'' s"
    by (rule py_count_skip) simp_all
  finally show ?thesis .
qed

lemma count_bold:
  "py_count ''<pre>'' (''<b>'' @ s) = py_count ''<pre>'' s"
  "py_count ''</pre>'' (''<b>'' @ s) = py_count ''</pre>'' s"
  "py_count ''<pre>'' (''</b>'' @ s) = py_count ''<pre>'' s"
  "py_count ''</pre>'' (''</b>'' @ s) = py_count ''</pre>'' s"
proof -
  have a: "py_count ''<pre>'' (''b>'' @ s) = py_count ''<pre>'' s"
    "py_count ''</pre>'' (''b>'' @ s) = py_count ''</pre>'' s"
    "py_count ''<pre>'' (''/b>'' @ s) = py_count ''<pre>'' s"
    by (rule py_count_skip; simp)+
  then show "py_count ''<pre>'' (''<b>'' @ s) = py_count ''<pre>'' s"
    "py_count ''</pre>'' (''<b>'' @ s) = py_count ''</pre>'' s"
    "py_count ''<pre>'' (''</b>'' @ s) = py_count ''<pre>'' s"
    by (simp_all add: py_count_miss)
  have "py_count ''</pre>'' (''</b>'' @ s) = py_count ''</pre>'' (''/b>'' @ s)"
    by (simp add: py_count_miss)
  also have "\<dots> = py_count ''</pre>'' s"
    by (rule py_count_skip) simp_all
  finally show "py_count ''</pre>'' (''</b>'' @ s) = py_count ''</pre>'' s" .
qed

lemma count_open_partial_close: "n < 6 \<Longrightarrow> py_count ''<pre>'' (take n ''</pre>'') = 0"
proof -
  assume "n < 6"
  then consider "n < 5" | "n = 5" by arith
  then show ?thesis
  proof cases
    case 1
    then show ?thesis by (simp add: py_count_short)
  next
    case 2
    have "py_count ''<pre>'' ''</pre'' = py_count ''<pre>'' ''/pre''"
      by (simp add: py_count_miss)
    also have "\<dots> = 0" by (simp add: py_count_short)
    finally show ?thesis using 2 by simp
  qed
qed

lemma pre_text_prefix_counts:
  "pre_text b s b' \<Longrightarrow>
   py_count ''</pre>'' (take n s) \<le> py_count ''<pre>'' (take n s) + (if b then 1 else 0)
   \<and> py_count ''<pre>'' (take n s) + (if b then 1 else 0) \<le> py_count ''</pre>'' (take n s) + 1"
proof (induction arbitrary: n rule: pre_text.induct)
  case (pt_Nil b)
  then show ?case by (simp add: py_count_Nil)
next
  case (pt_Plain t b s b')
  have "CHR ''<'' \<notin> set (take n t)" using pt_Plain.hyps(1) by (auto dest: in_set_takeD)
  then have "py_count ''<pre>'' (take n t @ take (n - length t) s) = py_count ''<pre>'' (take (n - length t) s)"
    "py_count ''</pre>'' (take n t @ take (n - length t) s) = py_count ''</pre>'' (take (n - length t) s)"
    by (simp_all add: py_count_skip)
  with pt_Plain.IH [of "n - length t"] show ?case by simp
next
  case (pt_Open s b')
  show ?case
  proof (cases "5 \<le> n")
    case True
    then have t: "take n (''<pre>'' @ s) = ''<pre>'' @ take (n - length ''<pre>'') s"
      by (subst take_tag) simp
    from pt_Open.IH [of "n - length ''<pre>''"] show ?thesis
      unfolding t by (simp only: count_open_open count_close_open) simp
  next
    case False
    then have "take n (''<pre>'' @ s) = take n ''<pre>''" by (subst take_tag) simp
    moreover from False have "py_count ''<pre>'' (take n ''<pre>'') = 0"
      "py_count ''</pre>'' (take n ''<pre>'') = 0" by (simp_all add: py_count_short)
    ultimately show ?thesis by simp
  qed
next
  case (pt_Close s b')
  show ?case
  proof (cases "6 \<le> n")
    case True
    then have t: "take n (''</pre>'' @ s) = ''</pre>'' @ take (n - length ''</pre>'') s"
      by (subst take_tag) simp
    from pt_Close.IH [of "n - length ''</pre>''"] show ?thesis
      unfolding t by (simp only: count_open_close count_close_close) simp
  next
    case False
    then have "take n (''</pre>'' @ s) = take n ''</pre>''" by (subst take_tag) simp
    moreover from False have "py_count ''<pre>'' (take n ''</pre>'') = 0"
      "py_count ''</pre>'' (take n ''</pre>'') = 0"
      by (simp_all add: py_count_short count_open_partial_close)
    ultimately show ?thesis by simp
  qed
next
  case (pt_Bold b s b')
  show ?case
  proof (cases "3 \<le> n")
    case True
    then have t: "take n (''<b>'' @ s) = ''<b>'' @ take (n - length ''<b>'') s"
      by (subst take_tag) simp
    from pt_Bold.IH [of "n - length ''<b>''"] show ?thesis
      unfolding t by (simp only: count_bold)
  next
    case False
    then have "take n (''<b>'' @ s) = take n ''<b>''" by (subst take_tag) simp
    moreover from False have "py_count ''<pre>'' (take n ''<b>'') = 0"
      "py_count ''</pre>'' (take n ''<b>'') = 0" by (simp_all add: py_count_short)
    ultimately show ?thesis by simp
  qed
next
  case (pt_BoldEnd b s b')
  show ?case
  proof (cases "4 \<le> n")
    case True
    then have t: "take n (''</b>'' @ s) = ''</b>'' @ take (n - length ''</b>'') s"
      by (subst take_tag) simp
    from pt_BoldEnd.IH [of "n - length ''</b>''"] show ?thesis
      unfolding t by (simp only: count_bold)
  next
    case False
    then have "take n (''</b>'' @ s) = take n ''</b>''" by (subst take_tag) simp
    moreover from False have "py_count ''<pre>'' (take n ''</b>'') = 0"
      "py_count ''</pre>'' (take n ''</b>'') = 0" by (simp_all add: py_count_short)
    ultimately show ?thesis by simp
  qed
qed


lemma escape_no_lt: "CHR ''<'' \<notin> set (escape s)"
  by (induction s) (auto simp: escape_def escape_char_def)

lemma pre_text_escape: "pre_text b (escape s) b"
  by (rule pre_text_plain) (rule escape_no_lt)

lemma pre_text_newline: "pre_text b [CHR 0x0A] b"
  by (rule pre_text_plain) simp

lemma pre_text_pre_block: "pre_text False (''<pre>'' @ escape s @ ''</pre>'') False"
proof -
  have "pre_text True (''</pre>'' @ []) False" by (rule pt_Close) (rule pt_Nil)
  with pre_text_escape [of True s] have "pre_text True (escape s @ ''</pre>'' @ []) False"
    by (rule pre_text_append)
  then have "pre_text False (''<pre>'' @ escape s @ ''</pre>'' @ []) False" by (rule pt_Open)
  then show ?thesis by simp
qed

lemma pre_text_join:
  "(\<And>x. x \<in> set xs \<Longrightarrow> pre_text False x False) \<Longrightarrow> pre_text False (join [CHR 0x0A] xs) False"
proof (induction "[CHR 0x0A]" xs rule: join.induct)
  case 1
  show ?case by (simp add: pt_Nil)
next
  case (2 x)
  then show ?case by simp
next
  case (3 x y ys)
  have x: "pre_text False x False" by (rule "3.prems") simp
  have "pre_text False (join [CHR 0x0A] (y # ys)) False"
    by (rule "3.hyps") (rule "3.prems", simp)
  with pre_text_newline have "pre_text False ([CHR 0x0A] @ join [CHR 0x0A] (y # ys)) False"
    by (rule pre_text_append)
  with x have "pre_text False (x @ [CHR 0x0A] @ join [CHR 0x0A] (y # ys)) False"
    by (rule pre_text_append)
  then show ?case by simp
qed

lemma pre_text_stack_frame: "pre_text False (telegram_stack_frame sf) False"
proof -
  have "pre_text False (join [CHR 0x0A]
           ([escape (strip (hd (split_first_line sf)))] @
            map (\<lambda>l. ''<pre>'' @ escape (strip l) @ ''</pre>'')
              (filter (\<lambda>l. l \<noteq> []) (tl (split_first_line sf))))) False"
  proof (rule pre_text_join)
    fix x
    assume "x \<in> set ([escape (strip (hd (split_first_line sf)))] @
            map (\<lambda>l. ''<pre>'' @ escape (strip l) @ ''</pre>'')
              (filter (\<lambda>l. l \<noteq> []) (tl (split_first_line sf))))"
    then consider "x = escape (strip (hd (split_first_line sf)))"
      | l where "x = ''<pre>'' @ escape (strip l) @ ''</pre>''"
      by auto
    then show "pre_text False x False"
    proof cases
      case 1
      then show ?thesis by (simp only: pre_text_escape)
    next
      case 2
      then show ?thesis by (simp only: pre_text_pre_block)
    qed
  qed
  then have "pre_text False (join [CHR 0x0A]
           ([escape (strip (hd (split_first_line sf)))] @
            map (\<lambda>l. ''<pre>'' @ escape (strip l) @ ''</pre>'')
              (filter (\<lambda>l. l \<noteq> []) (tl (split_first_line sf)))) @ [CHR 0x0A]) False"
    using pre_text_newline by (rule pre_text_append)
  then show ?thesis by (simp add: telegram_stack_frame_def Let_def)
qed

lemma pre_text_header:
  "pre_text False (''<b>'' @ escape lv @ ''</b> in <b>'' @ escape nm @ ''</b>: '' @ escape msg) False"
proof -
  have 1: "pre_text False ('': '' @ escape msg) False"
    by (rule pt_Plain) (simp, rule pre_text_escape)
  have 2: "pre_text False (''</b>'' @ '': '' @ escape msg) False"
    using 1 by (rule pt_BoldEnd)
  have 3: "pre_text False (escape nm @ ''</b>'' @ '': '' @ escape msg) False"
    using pre_text_escape 2 by (rule pre_text_append)
  have 4: "pre_text False (''<b>'' @ escape nm @ ''</b>'' @ '': '' @ escape msg) False"
    using 3 by (rule pt_Bold)
  have 5: "pre_text False ('' in '' @ ''<b>'' @ escape nm @ ''</b>'' @ '': '' @ escape msg) False"
    by (rule pt_Plain) (simp, rule 4)
  have 6: "pre_text False (''</b>'' @ '' in '' @ ''<b>'' @ escape nm @ ''</b>'' @ '': '' @ escape msg) False"
    using 5 by (rule pt_BoldEnd)
  have 7: "pre_text False (escape lv @ ''</b>'' @ '' in '' @ ''<b>'' @ escape nm @ ''</b>'' @ '': '' @ escape msg) False"
    using pre_text_escape 6 by (rule pre_text_append)
  have "pre_text False (''<b>'' @ escape lv @ ''</b>'' @ '' in '' @ ''<b>'' @ escape nm @ ''</b>'' @ '': '' @ escape msg) False"
    using 7 by (rule pt_Bold)
  then show ?thesis by simp
qed

lemma pre_text_full: "pre_text False (telegram_full_text app_name r) False"
proof (cases "rec_exc_info r")
  case None
  with pre_text_header [of "levelname r" app_name "message r"] show ?thesis
    by (simp add: telegram_full_text_def)
next
  case (Some ei)
  have "pre_text False (join [CHR 0x0A] (map telegram_stack_frame (rev (tl (format_exception ei))))) False"
    by (rule pre_text_join) (auto simp: pre_text_stack_frame)
  then have "pre_text False ([CHR 0x0A, CHR 0x0A] @
      join [CHR 0x0A] (map telegram_stack_frame (rev (tl (format_exception ei))))) False"
    by (rule pt_Plain [rotated]) simp
  with pre_text_header [of "levelname r" app_name "message r"]
  have "pre_text False ((''<b>'' @ escape (levelname r) @ ''</b> in <b>'' @ escape app_name @ ''</b>: '' @
                 escape (message r)) @ [CHR 0x0A, CHR 0x0A] @
      join [CHR 0x0A] (map telegram_stack_frame (rev (tl (format_exception ei))))) False"
    by (rule pre_text_append)
  with Some show ?thesis by (simp add: telegram_full_text_def)
qed

lemma truncate_balanced:
  assumes "pre_text False text b'" and "length text > 4096"
  shows "py_count ''<pre>'' (telegram_truncate text) = py_count ''</pre>'' (telegram_truncate text)"
proof -
  let ?t = "take (4096 - 7) text"
  from pre_text_prefix_counts [OF assms(1), of "4096 - 7"]
  have le: "py_count ''</pre>'' ?t \<le> py_count ''<pre>'' ?t"
    and ge: "py_count ''<pre>'' ?t \<le> py_count ''</pre>'' ?t + 1" by simp_all
  have e: "py_count ''<pre>'' (u @ [ellipsis]) = py_count ''<pre>'' u"
    "py_count ''</pre>'' (u @ [ellipsis]) = py_count ''</pre>'' u" for u
    by (rule py_count_append_other; simp add: ellipsis_def)+
  show ?thesis
  proof (cases "py_count ''<pre>'' ?t > py_count ''</pre>'' ?t")
    case True
    have "py_count ''<pre>'' (?t @ ''</pre>'') = py_count ''<pre>'' ?t + py_count ''<pre>'' ''</pre>''"
      using py_count_append_tag [of "''<pre>''" "CHR ''<''" "''pre>''" ?t "''/pre>''"] by simp
    moreover have "py_count ''<pre>'' ''</pre>'' = 0"
      using count_open_close [of "[]"] by (simp add: py_count_Nil)
    moreover have "py_count ''</pre>'' (?t @ ''</pre>'') = py_count ''</pre>'' ?t + py_count ''</pre>'' ''</pre>''"
      using py_count_append_tag [of "''</pre>''" "CHR ''<''" "''/pre>''" ?t "''/pre>''"] by simp
    moreover have "py_count ''</pre>'' ''</pre>'' = 1"
      using count_close_close [of "[]"] by (simp add: py_count_Nil)
    ultimately have "py_count ''<pre>'' (?t @ ''</pre>'') = py_count ''</pre>'' (?t @ ''</pre>'')"
      using True ge by simp
    then have "py_count ''<pre>'' ((?t @ ''</pre>'') @ [ellipsis])
        = py_count ''</pre>'' ((?t @ ''</pre>'') @ [ellipsis])"
      by (simp only: e)
    with True assms(2) show ?thesis by (simp add: telegram_truncate_def Let_def)
  next
    case False
    with le have "py_count ''<pre>'' ?t = py_count ''</pre>'' ?t" by simp
    then have "py_count ''<pre>'' (?t @ [ellipsis]) = py_count ''</pre>'' (?t @ [ellipsis])"
      by (simp only: e)
    with False assms(2) show ?thesis by (simp add: telegram_truncate_def Let_def)
  qed
qed

lemma truncate_length: "length (telegram_truncate text) \<le> 4096"
  by (simp add: telegram_truncate_def Let_def)

text \<open>
  C8. What \<open>TelegramHandler.emit\<close> posts, when it posts, is one request whose text is at
  most 4096 characters long. A text within the budget goes out as it is. A longer one
  is cut to its first 4089 characters, gets a closing \<open></pre>\<close> if the kept part has more
  \<open><pre>\<close> than \<open></pre>\<close>, and then the ellipsis; the result has as many \<open><pre>\<close> as
  \<open></pre>\<close>, counted as the handler counts them.
\<close>

theorem telegram_text_capped_balanced:
  fixes app_name :: string and r :: log_record
  defines "full \<equiv> telegram_full_text app_name r"
  defines "kept \<equiv> take (4096 - 7) full"
  shows "fst (snd (telegram_emit app_name chatid apikey net now th r)) =
      (if not_throttled th now (rec_module r, lineno r) \<and> net (telegram_url apikey) = None
       then [(telegram_url apikey, chatid, telegram_text app_name r)] else [])
    \<and> length (telegram_text app_name r) \<le> 4096
    \<and> (length full \<le> 4096 \<longrightarrow> telegram_text app_name r = full)
    \<and> (length full > 4096 \<longrightarrow>
         telegram_text app_name r =
           kept @ (if py_count ''<pre>'' kept > py_count ''</pre>'' kept then ''</pre>'' else [])
             @ [ellipsis]
         \<and> py_count ''<pre>'' (telegram_text app_name r)
             = py_count ''</pre>'' (telegram_text app_name r))"
proof (intro conjI impI)
  show "fst (snd (telegram_emit app_name chatid apikey net now th r)) =
      (if not_throttled th now (rec_module r, lineno r) \<and> net (telegram_url apikey) = None
       then [(telegram_url apikey, chatid, telegram_text app_name r)] else [])"
    by (simp add: telegram_emit_def Let_def split: option.splits)
  show "length (telegram_text app_name r) \<le> 4096"
    unfolding telegram_text_def by (rule truncate_length)
  show "telegram_text app_name r = full" if "length full \<le> 4096"
    using that by (simp add: telegram_text_def telegram_truncate_def full_def)
  show "telegram_text app_name r =
      kept @ (if py_count ''<pre>'' kept > py_count ''</pre>'' kept then ''</pre>'' else [])
        @ [ellipsis]" if "length full > 4096"
    using that by (simp add: telegram_text_def telegram_truncate_def full_def kept_def Let_def)
  show "py_count ''<pre>'' (telegram_text app_name r)
      = py_count ''</pre>'' (telegram_text app_name r)" if "length full > 4096"
    unfolding telegram_text_def
    using pre_text_full that [unfolded full_def] by (rule truncate_balanced)
qed

lemma escape_append: "escape (a @ b) = escape a @ escape b"
  by (simp add: escape_def)

lemma escape_replicate_y: "escape (replicate n CHR ''y'') = replicate n CHR ''y''"
  by (induction n) (simp_all add: escape_def escape_char_def)

lemma long_record_full:
  "telegram_full_text ''app'' long_record =
     long_head @ ''<pre>'' @ CHR ''x'' # replicate 5000 CHR ''y'' @ ''z</pre>'' @ [CHR 0x0A]"
proof -
  have e: "telegram_stack_frame (''ValueError: boom'' @ [CHR 0x0A]) = ''ValueError: boom'' @ [CHR 0x0A]"
    by code_simp
  have s: "split_first_line (''  File views.py, line 7, in view'' @ [CHR 0x0A] @
             ''    x'' @ replicate 5000 CHR ''y'' @ ''z'' @ [CHR 0x0A])
      = [''  File views.py, line 7, in view'',
         ''    x'' @ replicate 5000 CHR ''y'' @ ''z'' @ [CHR 0x0A]]"
    by (simp add: split_first_line_def)
  have h: "escape (strip ''  File views.py, line 7, in view'') = ''File views.py, line 7, in view''"
    by code_simp
  have "strip (''    x'' @ replicate 5000 CHR ''y'' @ ''z'' @ [CHR 0x0A])
      = CHR ''x'' # replicate 5000 CHR ''y'' @ ''z''"
    by (simp add: strip_def is_space_def)
  then have b: "escape (strip (''    x'' @ replicate 5000 CHR ''y'' @ ''z'' @ [CHR 0x0A]))
      = CHR ''x'' # replicate 5000 CHR ''y'' @ ''z''"
    using escape_append [of "''x''" "replicate 5000 CHR ''y'' @ ''z''"]
      escape_append [of "replicate 5000 CHR ''y''" "''z''"] escape_replicate_y [of 5000]
    by (simp add: escape_def escape_char_def)
  have f: "telegram_stack_frame (''  File views.py, line 7, in view'' @ [CHR 0x0A] @
             ''    x'' @ replicate 5000 CHR ''y'' @ ''z'' @ [CHR 0x0A])
      = ''File views.py, line 7, in view'' @ [CHR 0x0A] @ ''<pre>'' @
        CHR ''x'' # replicate 5000 CHR ''y'' @ ''z</pre>'' @ [CHR 0x0A]"
    unfolding telegram_stack_frame_def s using h b by (simp add: Let_def)
  have "escape ''ERROR'' = ''ERROR''" "escape ''app'' = ''app''" "escape ''boom'' = ''boom''"
    by code_simp+
  with e f show ?thesis
    by (simp add: telegram_full_text_def long_record_def long_head_def)
qed


lemma long_head_length: "length long_head = 83"
  by (simp add: long_head_def)

lemma long_head_counts: "py_count ''<pre>'' long_head = 0" "py_count ''</pre>'' long_head = 0"
  by code_simp+

lemma long_record_kept:
  "take (4096 - 7) (telegram_full_text ''app'' long_record) =
     long_head @ ''<pre>'' @ CHR ''x'' # replicate 4000 CHR ''y''"
  by (simp add: long_record_full long_head_length)

lemma long_record_kept_counts:
  "py_count ''<pre>'' (long_head @ ''<pre>'' @ CHR ''x'' # replicate 4000 CHR ''y'') = 1"
  "py_count ''</pre>'' (long_head @ ''<pre>'' @ CHR ''x'' # replicate 4000 CHR ''y'') = 0"
proof -
  have z: "py_count ''<pre>'' (CHR ''x'' # replicate 4000 CHR ''y'') = 0"
    "py_count ''</pre>'' (CHR ''x'' # replicate 4000 CHR ''y'') = 0"
    using py_count_skip [of "''<pre>''" "CHR ''x'' # replicate 4000 CHR ''y''" "[]"]
      py_count_skip [of "''</pre>''" "CHR ''x'' # replicate 4000 CHR ''y''" "[]"]
    by (simp_all add: py_count_Nil)
  have "py_count ''<pre>'' (long_head @ CHR ''<'' # ''pre>'' @ CHR ''x'' # replicate 4000 CHR ''y'')
      = py_count ''<pre>'' long_head
        + py_count ''<pre>'' (CHR ''<'' # ''pre>'' @ CHR ''x'' # replicate 4000 CHR ''y'')"
    by (rule py_count_append_tag [where q = "''pre>''"]) simp_all
  moreover have "py_count ''<pre>'' (''<pre>'' @ CHR ''x'' # replicate 4000 CHR ''y'')
      = Suc (py_count ''<pre>'' (CHR ''x'' # replicate 4000 CHR ''y''))"
    by (rule count_open_open)
  ultimately show "py_count ''<pre>'' (long_head @ ''<pre>'' @ CHR ''x'' # replicate 4000 CHR ''y'') = 1"
    using z long_head_counts by simp
  have "py_count ''</pre>'' (long_head @ CHR ''<'' # ''pre>'' @ CHR ''x'' # replicate 4000 CHR ''y'')
      = py_count ''</pre>'' long_head
        + py_count ''</pre>'' (CHR ''<'' # ''pre>'' @ CHR ''x'' # replicate 4000 CHR ''y'')"
    by (rule py_count_append_tag [where q = "''/pre>''"]) simp_all
  moreover have "py_count ''</pre>'' (''<pre>'' @ CHR ''x'' # replicate 4000 CHR ''y'')
      = py_count ''</pre>'' (CHR ''x'' # replicate 4000 CHR ''y'')"
    by (rule count_close_open)
  ultimately show "py_count ''</pre>'' (long_head @ ''<pre>'' @ CHR ''x'' # replicate 4000 CHR ''y'') = 0"
    using z long_head_counts by simp
qed

theorem telegram_text_capped_balanced_witness:
  "not_throttled Map.empty 0 (rec_module long_record, lineno long_record)
   \<and> length (telegram_full_text ''app'' long_record) > 4096
   \<and> take (4096 - 7) (telegram_full_text ''app'' long_record) =
       long_head @ ''<pre>'' @ CHR ''x'' # replicate 4000 CHR ''y''
   \<and> py_count ''<pre>'' (long_head @ ''<pre>'' @ CHR ''x'' # replicate 4000 CHR ''y'') = 1
   \<and> py_count ''</pre>'' (long_head @ ''<pre>'' @ CHR ''x'' # replicate 4000 CHR ''y'') = 0
   \<and> fst (snd (telegram_emit ''app'' ''42'' ''KEY'' (\<lambda>url. None) 0 Map.empty long_record)) =
       [(telegram_url ''KEY'', ''42'',
         (long_head @ ''<pre>'' @ CHR ''x'' # replicate 4000 CHR ''y'') @ ''</pre>'' @ [ellipsis])]
   \<and> length (telegram_text ''app'' long_record) \<le> 4096
   \<and> py_count ''<pre>'' (telegram_text ''app'' long_record)
       = py_count ''</pre>'' (telegram_text ''app'' long_record)"
proof -
  have t: "not_throttled Map.empty 0 (rec_module long_record, lineno long_record)"
    by (simp add: not_throttled_def)
  have l: "length (telegram_full_text ''app'' long_record) > 4096"
    by (simp add: long_record_full long_head_length)
  note T = telegram_text_capped_balanced [where app_name = "''app''" and r = long_record
      and chatid = "''42''" and apikey = "''KEY''" and net = "\<lambda>url. None" and now = 0
      and th = Map.empty]
  from T l have "telegram_text ''app'' long_record =
      take (4096 - 7) (telegram_full_text ''app'' long_record) @
      (if py_count ''<pre>'' (take (4096 - 7) (telegram_full_text ''app'' long_record))
          > py_count ''</pre>'' (take (4096 - 7) (telegram_full_text ''app'' long_record))
       then ''</pre>'' else []) @ [ellipsis]"
    by blast
  then have x: "telegram_text ''app'' long_record =
      (long_head @ ''<pre>'' @ CHR ''x'' # replicate 4000 CHR ''y'') @ ''</pre>'' @ [ellipsis]"
    unfolding long_record_kept long_record_kept_counts by simp
  from T t have "fst (snd (telegram_emit ''app'' ''42'' ''KEY'' (\<lambda>url. None) 0 Map.empty
      long_record)) = [(telegram_url ''KEY'', ''42'', telegram_text ''app'' long_record)]"
    by simp
  then have sent: "fst (snd (telegram_emit ''app'' ''42'' ''KEY'' (\<lambda>url. None) 0 Map.empty
      long_record)) = [(telegram_url ''KEY'', ''42'',
         (long_head @ ''<pre>'' @ CHR ''x'' # replicate 4000 CHR ''y'') @ ''</pre>'' @ [ellipsis])]"
    unfolding x .
  from T have len: "length (telegram_text ''app'' long_record) \<le> 4096" by blast
  from T l have bal: "py_count ''<pre>'' (telegram_text ''app'' long_record)
       = py_count ''</pre>'' (telegram_text ''app'' long_record)" by blast
  show ?thesis
    by (intro conjI) (fact t l long_record_kept long_record_kept_counts sent len bal)+
qed

section \<open>Properties of delivery\<close>

text \<open>\<open>SlackHandler.emit\<close> never ends in an exception, whatever the network does.\<close>

lemma slack_post_all_no_exception:
  "snd (snd (slack_post_all net now throttle_key lname data ws th)) = None"
  by (induction ws arbitrary: th) (simp_all add: split_beta Let_def)

lemma slack_emit_no_exception:
  "snd (snd (slack_emit app_name webhooks net now th r)) = None"
  by (simp add: slack_emit_def Let_def slack_post_all_no_exception)

text \<open>
  C3 at the failing input: with the network down and nothing throttled, the exception
  of \<open>requests.post\<close> leaves \<open>TelegramHandler.emit\<close>, while \<open>SlackHandler.emit\<close> on the
  same record and network returns normally.
\<close>

theorem telegram_emit_propagates:
  "not_throttled Map.empty 0 (rec_module error_record, lineno error_record)
   \<and> network_down (telegram_url ''KEY'') = Some (Exn ''ConnectionError'')
   \<and> snd (snd (telegram_emit ''app'' ''42'' ''KEY'' network_down 0 Map.empty error_record))
       = Some (Exn ''ConnectionError'')
   \<and> snd (snd (slack_emit ''app'' [error_webhook] network_down 0 Map.empty error_record)) = None"
  by (simp add: telegram_emit_def slack_emit_no_exception not_throttled_def network_down_def)

section \<open>Properties of the slug generator\<close>

lemma suffix_search_finds:
  assumes "base @ str_digits (int m) \<notin> set used"
  shows "i \<le> m \<Longrightarrow> (\<And>j. i \<le> j \<Longrightarrow> j < m \<Longrightarrow> base @ str_digits (int j) \<in> set used)
    \<Longrightarrow> suffix_search base used i = base @ str_digits (int m)"
proof (induction "m - i" arbitrary: i)
  case 0
  then have "i = m" by simp
  with assms show ?case by simp
next
  case (Suc d)
  then have lt: "i < m" by simp
  with Suc.prems have "base @ str_digits (int i) \<in> set used" by simp
  then have "suffix_search base used i = suffix_search base used (Suc i)" by simp
  also have "\<dots> = base @ str_digits (int m)"
  proof (rule Suc.hyps(1))
    show "d = m - Suc i" using Suc.hyps(2) by simp
    show "Suc i \<le> m" using lt by simp
    show "base @ str_digits (int j) \<in> set used" if "Suc i \<le> j" "j < m" for j
      using that Suc.prems(2) [of j] by simp
  qed
  finally show ?case .
qed

lemma names_in_scope_add:
  "names_in_scope (st\<lparr>pending := pending st @ [(scope, name)]\<rparr>) scope
     = names_in_scope st scope @ [name]"
  by (simp add: names_in_scope_def)

lemma suffixed_fresh:
  assumes "1 \<le> n"
  shows "base @ str_digits (int (Suc n))
    \<notin> set (base # map (\<lambda>j. base @ str_digits (int j)) [2..<Suc n])"
proof
  assume "base @ str_digits (int (Suc n))
    \<in> set (base # map (\<lambda>j. base @ str_digits (int j)) [2..<Suc n])"
  then consider "base @ str_digits (int (Suc n)) = base"
    | j where "2 \<le> j" "j < Suc n" "base @ str_digits (int (Suc n)) = base @ str_digits (int j)"
    by auto
  then show False
  proof cases
    case 1
    then have "str_digits (int (Suc n)) = []" by simp
    moreover have "str_digits (int (Suc n)) \<noteq> []" using str_digits_shape [of "int (Suc n)"] by simp
    ultimately show False by simp
  next
    case 2
    then have "str_digits (int (Suc n)) = str_digits (int j)" by simp
    then have "int (Suc n) = int j" by (rule str_digits_inj [rotated 2]) simp_all
    with 2 show False by simp
  qed
qed

lemma create_next:
  assumes base: "normalize_title title ml = base" "base \<noteq> []"
    and n: "1 \<le> n"
    and names: "names_in_scope st scope =
      names0 @ base # map (\<lambda>j. base @ str_digits (int j)) [2..<Suc n]"
    and fresh: "base @ str_digits (int (Suc n)) \<notin> set (reserved @ names0)"
  shows "create_entity title scope reserved ml blank st =
      Inr (base @ str_digits (int (Suc n)),
           st\<lparr>pending := pending st @ [(scope, base @ str_digits (int (Suc n)))]\<rparr>)"
proof -
  let ?made = "base # map (\<lambda>j. base @ str_digits (int j)) [2..<Suc n]"
  let ?used = "reserved @ names0 @ ?made"
  have "suffix_search base ?used 2 = base @ str_digits (int (Suc n))"
  proof (rule suffix_search_finds)
    have "base @ str_digits (int (Suc n)) \<notin> set ?made" using n by (rule suffixed_fresh)
    with fresh show "base @ str_digits (int (Suc n)) \<notin> set ?used" by simp
    show "2 \<le> Suc n" using n by simp
    show "base @ str_digits (int j) \<in> set ?used" if "2 \<le> j" "j < Suc n" for j
    proof -
      from that have "j \<in> set [2..<Suc n]" by auto
      then have "(\<lambda>j. base @ str_digits (int j)) j
          \<in> set (map (\<lambda>j. base @ str_digits (int j)) [2..<Suc n])"
        unfolding set_map by (rule imageI)
      then show ?thesis by (simp del: upt_Suc)
    qed
  qed
  moreover have "base \<in> set ?used" by simp
  ultimately show ?thesis using base names
    by (simp add: create_entity_def make_name_def Let_def del: upt_Suc)
qed

lemma create_entities_next:
  assumes base: "normalize_title title ml = base" "base \<noteq> []"
  shows "1 \<le> n \<Longrightarrow>
    names_in_scope st scope = names0 @ base # map (\<lambda>j. base @ str_digits (int j)) [2..<Suc n] \<Longrightarrow>
    (\<And>j. Suc n \<le> j \<Longrightarrow> j < Suc n + k \<Longrightarrow>
       base @ str_digits (int j) \<notin> set (reserved @ names0)) \<Longrightarrow>
    \<exists>st'. create_entities k title scope reserved ml blank st =
      Inr (map (\<lambda>j. base @ str_digits (int j)) [Suc n..<Suc n + k], st')"
proof (induction k arbitrary: n st)
  case 0
  then show ?case by simp
next
  case (Suc k)
  let ?name = "base @ str_digits (int (Suc n))"
  let ?st1 = "st\<lparr>pending := pending st @ [(scope, ?name)]\<rparr>"
  have "?name \<notin> set (reserved @ names0)" by (rule Suc.prems(3)) simp_all
  with base Suc.prems(1,2)
  have c: "create_entity title scope reserved ml blank st = Inr (?name, ?st1)"
    by (rule create_next)
  have s: "names_in_scope ?st1 scope =
      names0 @ base # map (\<lambda>j. base @ str_digits (int j)) [2..<Suc (Suc n)]"
    using Suc.prems(1,2) by (simp add: names_in_scope_add)
  have "\<exists>st'. create_entities k title scope reserved ml blank ?st1 =
      Inr (map (\<lambda>j. base @ str_digits (int j)) [Suc (Suc n)..<Suc (Suc n) + k], st')"
  proof (rule Suc.IH [OF _ s])
    show "1 \<le> Suc n" by simp
    show "base @ str_digits (int j) \<notin> set (reserved @ names0)"
      if "Suc (Suc n) \<le> j" "j < Suc (Suc n) + k" for j
      using that by (intro Suc.prems(3)) simp_all
  qed
  then obtain st' where
    "create_entities k title scope reserved ml blank ?st1 =
      Inr (map (\<lambda>j. base @ str_digits (int j)) [Suc (Suc n)..<Suc (Suc n) + k], st')"
    by auto
  with c have "create_entities (Suc k) title scope reserved ml blank st =
      Inr (?name # map (\<lambda>j. base @ str_digits (int j)) [Suc (Suc n)..<Suc (Suc n) + k], st')"
    by simp
  moreover have "[Suc n..<Suc n + Suc k] = Suc n # [Suc (Suc n)..<Suc (Suc n) + k]"
    by (simp add: upt_rec)
  ultimately show ?case by simp
qed

text \<open>
  C1. Entities created one after the other with the same title, in any scope and with
  any list of reserved names, get the normalised title as the first name and then that
  name with the suffixes 2, 3, 4 and so on, in order, provided that the names to be
  given are neither reserved nor taken in that scope beforehand; the scope may hold
  other names, and what other scopes hold plays no part. For the title \<open>Hello\<close>, the
  reserved name \<open>new\<close> and a scope that holds \<open>other\<close>, \<open>draft\<close> and \<open>hello7\<close> the
  names are \<open>hello\<close>, \<open>hello2\<close>, \<open>hello3\<close>, although another scope already holds
  \<open>hello\<close>.
\<close>

theorem successive_names:
  assumes blank: "normalize_title title max_length \<noteq> []"
    and free: "normalize_title title max_length
      \<notin> set (reserved_names @ names_in_scope st scope)"
    and free_suffixed: "\<And>j. 2 \<le> j \<Longrightarrow> j \<le> k + 1 \<Longrightarrow>
      normalize_title title max_length @ str_digits (int j)
        \<notin> set (reserved_names @ names_in_scope st scope)"
  shows "\<exists>st'. create_entities (Suc k) title scope reserved_names max_length blank_allowed st =
      Inr (normalize_title title max_length #
           map (\<lambda>j. normalize_title title max_length @ str_digits (int j)) [2..<k + 2], st')"
proof -
  let ?base = "normalize_title title max_length"
  let ?st1 = "st\<lparr>pending := pending st @ [(scope, ?base)]\<rparr>"
  have c: "create_entity title scope reserved_names max_length blank_allowed st = Inr (?base, ?st1)"
    using blank free by (simp add: create_entity_def make_name_def Let_def)
  have s: "names_in_scope ?st1 scope =
      names_in_scope st scope @ ?base # map (\<lambda>j. ?base @ str_digits (int j)) [2..<Suc 1]"
    by (simp add: names_in_scope_add)
  have "\<exists>st'. create_entities k title scope reserved_names max_length blank_allowed ?st1 =
      Inr (map (\<lambda>j. ?base @ str_digits (int j)) [Suc 1..<Suc 1 + k], st')"
  proof (rule create_entities_next [OF refl blank _ s])
    show "(1::nat) \<le> 1" by simp
    show "?base @ str_digits (int j) \<notin> set (reserved_names @ names_in_scope st scope)"
      if "Suc 1 \<le> j" "j < Suc 1 + k" for j
      using that by (intro free_suffixed) simp_all
  qed
  then obtain st' where
    "create_entities k title scope reserved_names max_length blank_allowed ?st1 =
      Inr (map (\<lambda>j. ?base @ str_digits (int j)) [Suc 1..<Suc 1 + k], st')"
    by auto
  with c have "create_entities (Suc k) title scope reserved_names max_length blank_allowed st =
      Inr (?base # map (\<lambda>j. ?base @ str_digits (int j)) [Suc 1..<Suc 1 + k], st')"
    by simp
  moreover have "[Suc 1..<Suc 1 + k] = [2..<k + 2]" by (simp add: numeral_2_eq_2)
  ultimately show ?thesis by auto
qed

theorem successive_names_witness:
  "normalize_title ''Hello'' None = ''hello''
   \<and> normalize_title (''H'' @ [CHR 0xE9] @ ''llo, W'' @ [CHR 0xF6] @ ''rld!'') None = ''hello-world''
   \<and> names_in_scope hello_store (Some 1) = [''other'', ''hello7'', ''draft'']
   \<and> names_in_scope hello_store (Some 2) = [''hello'']
   \<and> ''hello'' \<notin> set ([''new''] @ names_in_scope hello_store (Some 1))
   \<and> ''hello'' @ str_digits 2 \<notin> set ([''new''] @ names_in_scope hello_store (Some 1))
   \<and> ''hello'' @ str_digits 3 \<notin> set ([''new''] @ names_in_scope hello_store (Some 1))
   \<and> (\<exists>st'. create_entities 3 ''Hello'' (Some 1) [''new''] None False hello_store =
         Inr ([''hello'', ''hello2'', ''hello3''], st'))"
proof -
  have n: "normalize_title ''Hello'' None = ''hello''" by code_simp
  have a: "normalize_title (''H'' @ [CHR 0xE9] @ ''llo, W'' @ [CHR 0xF6] @ ''rld!'') None
      = ''hello-world''" by code_simp
  have e: "names_in_scope hello_store (Some 1) = [''other'', ''hello7'', ''draft'']"
    "names_in_scope hello_store (Some 2) = [''hello'']" by code_simp+
  have d: "str_digits 2 = ''2''" "str_digits 3 = ''3''" by code_simp+
  have u: "[2..<4] = [2, 3::nat]" by code_simp
  have h: "normalize_title ''Hello'' None \<noteq> []" using n by simp
  have f: "normalize_title ''Hello'' None
      \<notin> set ([''new''] @ names_in_scope hello_store (Some 1))"
    unfolding n e by simp
  have g: "normalize_title ''Hello'' None @ str_digits (int j)
      \<notin> set ([''new''] @ names_in_scope hello_store (Some 1))" if "2 \<le> j" "j \<le> 2 + 1" for j
  proof -
    from that have "j = 2 \<or> j = 3" by auto
    then show ?thesis unfolding n e using d by auto
  qed
  from successive_names [where k = 2 and blank_allowed = False, OF h f g] n d u
  have "\<exists>st'. create_entities 3 ''Hello'' (Some 1) [''new''] None False hello_store =
         Inr ([''hello'', ''hello2'', ''hello3''], st')"
    by (simp add: numeral_3_eq_3)
  with n a e f g [of 2] g [of 3] show ?thesis by simp
qed

section \<open>Properties of the compound identifiers\<close>

lemma of_char_char_of_nat: "m < 256 \<Longrightarrow> (of_char (char_of (m::nat)) :: int) = int m"
proof -
  assume "m < 256"
  then have "(of_char (char_of m) :: nat) = m" by simp
  moreover have "(of_char (char_of m) :: int) = int (of_char (char_of m))"
    by (simp add: of_char_def)
  ultimately show ?thesis by simp
qed

lemma hex_value_digit: "d < 16 \<Longrightarrow> hex_value (hex_digit d) = Some (int d)"
  by (auto simp: hex_value_def hex_digit_def Let_def of_char_char_of_nat)

lemma length_hex_fixed: "length (hex_fixed k n) = k"
  by (induction k arbitrary: n) simp_all

lemma hex_fixed_valid: "0 \<le> n \<Longrightarrow> list_all (\<lambda>c. hex_value c \<noteq> None) (hex_fixed k n)"
proof (induction k arbitrary: n)
  case 0
  then show ?case by simp
next
  case (Suc k)
  then have "nat (n mod 16) < 16" "0 \<le> n div 16" by simp_all
  with Suc.IH show ?case by (simp add: hex_value_digit)
qed

lemma hex_fixed_value:
  "0 \<le> n \<Longrightarrow> foldl (\<lambda>acc c. 16 * acc + the (hex_value c)) 0 (hex_fixed k n) = n mod 16 ^ k"
proof (induction k arbitrary: n)
  case 0
  then show ?case by simp
next
  case (Suc k)
  then have d: "nat (n mod 16) < 16" "0 \<le> n div 16" by simp_all
  have "16 * (n div 16 mod 16 ^ k) + n mod 16 = n mod (16 * 16 ^ k)"
    using zmod_zmult2_eq [of "16 ^ k" n 16] by simp
  with Suc.IH [OF d(2)] d show ?case by (simp add: hex_value_digit)
qed

lemma parse_hex_fixed: "0 \<le> n \<Longrightarrow> parse_hex (hex_fixed k n) = Some (n mod 16 ^ k)"
  using hex_fixed_valid [of n k] hex_fixed_value [of n k]
  unfolding parse_hex_def by (simp del: not_None_eq)

lemma hex_fixed_no_hyphen: "0 \<le> n \<Longrightarrow> CHR ''-'' \<notin> set (hex_fixed k n)"
proof
  assume "0 \<le> n" "CHR ''-'' \<in> set (hex_fixed k n)"
  with hex_fixed_valid [of n k] have "hex_value CHR ''-'' \<noteq> None"
    by (simp add: list_all_iff)
  then show False by (simp add: hex_value_def)
qed

lemma uint_uuid_range: "uint (u :: 128 word) mod 16 ^ 32 = uint u"
proof -
  have "uint u < 2 ^ 128" using uint_bounded [of u] by simp
  moreover have "(16::int) ^ 32 = 2 ^ 128" by simp
  ultimately show ?thesis by simp
qed

lemma filter_uuid_hex: "filter (\<lambda>c. c \<noteq> CHR ''-'') (uuid_hex u) = uuid_hex u"
  using hex_fixed_no_hyphen [of "uint u" 32] by (auto simp: uuid_hex_def filter_id_conv)

lemma parse_uuid_hex: "parse_uuid (uuid_hex u) = Some u"
proof -
  have "length (uuid_hex u) = 32" "parse_hex (uuid_hex u) = Some (uint u)"
    unfolding uuid_hex_def by (simp_all only: length_hex_fixed parse_hex_fixed uint_uuid_range uint_ge_0)
  then show ?thesis by (simp add: parse_uuid_def filter_uuid_hex)
qed

lemma undash: "filter (\<lambda>c. c \<noteq> CHR ''-'') (uuid_dashed u) = uuid_hex u"
proof -
  let ?h = "uuid_hex u"
  have nh: "filter (\<lambda>c. c \<noteq> CHR ''-'') xs = xs" if "set xs \<subseteq> set ?h" for xs
    using that hex_fixed_no_hyphen [of "uint u" 32] by (auto simp: uuid_hex_def filter_id_conv)
  have "filter (\<lambda>c. c \<noteq> CHR ''-'') (uuid_dashed u) =
      take 8 ?h @ take 4 (drop 8 ?h) @ take 4 (drop 12 ?h) @ take 4 (drop 16 ?h) @ drop 20 ?h"
    by (simp add: uuid_dashed_def Let_def nh set_take_subset set_drop_subset
        subset_trans [OF set_take_subset set_drop_subset])
  also have "\<dots> = ?h"
  proof -
    have "take 4 (drop 16 ?h) @ drop 20 ?h = drop 16 ?h"
      using append_take_drop_id [of 4 "drop 16 ?h"] by simp
    moreover have "take 4 (drop 12 ?h) @ drop 16 ?h = drop 12 ?h"
      using append_take_drop_id [of 4 "drop 12 ?h"] by simp
    moreover have "take 4 (drop 8 ?h) @ drop 12 ?h = drop 8 ?h"
      using append_take_drop_id [of 4 "drop 8 ?h"] by simp
    ultimately show ?thesis by simp
  qed
  finally show ?thesis .
qed

lemma parse_uuid_dashed: "parse_uuid (uuid_dashed u) = Some u"
proof -
  have "parse_uuid (uuid_dashed u) = parse_uuid (uuid_hex u)"
    by (simp only: parse_uuid_def undash filter_uuid_hex)
  then show ?thesis by (simp add: parse_uuid_hex)
qed

lemma takeWhile_before_hyphen:
  "CHR ''-'' \<notin> set h \<Longrightarrow> takeWhile (\<lambda>c. c \<noteq> CHR ''-'') (h @ CHR ''-'' # name) = h"
  by (induction h) auto

lemma takeWhile_run: "list_all P h \<Longrightarrow> \<not> P x \<Longrightarrow> takeWhile P (h @ x # r) = h"
  by (induction h) auto

lemma hyphen_no_digit: "\<not> is_digit CHR ''-''"
  by (simp add: is_digit_def)

lemma hyphen_no_hex: "hex_value CHR ''-'' = None"
  by (simp add: hex_value_def)

lemma str_digits_head: "0 \<le> k \<Longrightarrow> str_digits k \<noteq> [] \<and> hd (str_digits k) \<noteq> CHR ''-''"
proof -
  assume k: "0 \<le> k"
  then have s: "str_digits k \<noteq> []" "list_all is_digit (str_digits k)"
    using str_digits_shape [of k] by simp_all
  then have "is_digit (hd (str_digits k))" by (cases "str_digits k") simp_all
  with hyphen_no_digit have "hd (str_digits k) \<noteq> CHR ''-''" by auto
  with s show ?thesis by simp
qed

lemma parse_int_str_int: "parse_int (str_int k) = Some k"
proof (cases "k < 0")
  case True
  then have "parse_decimal (str_digits (- k)) = Some (- k)"
    by (simp add: parse_decimal_str_digits)
  with True show ?thesis by (simp add: parse_int_def str_int_def)
next
  case False
  then have "0 \<le> k" by simp
  with str_digits_head [of k] parse_decimal_str_digits [of k] False show ?thesis
    by (simp add: parse_int_def str_int_def)
qed

lemma leading_key_int: "leading_key IntKind (str_int k @ CHR ''-'' # name) = str_int k"
proof (cases "k < 0")
  case True
  then have "list_all is_digit (str_digits (- k))" using str_digits_shape [of "- k"] by simp
  then have "takeWhile is_digit (str_digits (- k) @ CHR ''-'' # name) = str_digits (- k)"
    using hyphen_no_digit by (rule takeWhile_run)
  with True show ?thesis by (simp add: leading_key_def str_int_def)
next
  case False
  then have k: "0 \<le> k" by simp
  then have "list_all is_digit (str_digits k)" using str_digits_shape [of k] by simp
  then have "takeWhile is_digit (str_digits k @ CHR ''-'' # name) = str_digits k"
    using hyphen_no_digit by (rule takeWhile_run)
  with False str_digits_head [OF k] show ?thesis by (simp add: leading_key_def str_int_def)
qed

lemma leading_key_uuid: "leading_key UuidKind (uuid_hex u @ CHR ''-'' # name) = uuid_hex u"
proof -
  have "list_all (\<lambda>c. hex_value c \<noteq> None) (uuid_hex u)"
    using hex_fixed_valid [of "uint u" 32] by (simp add: uuid_hex_def del: not_None_eq)
  moreover have "\<not> hex_value CHR ''-'' \<noteq> None" using hyphen_no_hex by simp
  ultimately have "takeWhile (\<lambda>c. hex_value c \<noteq> None) (uuid_hex u @ CHR ''-'' # name) = uuid_hex u"
    by (rule takeWhile_run)
  then show ?thesis by (simp add: leading_key_def del: not_None_eq)
qed

lemma int_key_roundtrip:
  "parse_url_id_name IntKind (url_id_name (IntKey k) name) = Some (IntKey k)"
  by (simp add: parse_url_id_name_def url_id_name_def url_id_def parse_url_id_def
      leading_key_int parse_int_str_int)

lemma uuid_key_roundtrip:
  "parse_url_id_name UuidKind (url_id_name (UuidKey u) name) = Some (UuidKey u)"
  by (simp add: parse_url_id_name_def url_id_name_def url_id_def parse_url_id_def
      leading_key_uuid parse_uuid_hex)

declare b58_digits.simps [simp del] byte_length.simps [simp del]

lemma b58_digits_nonpos: "n \<le> 0 \<Longrightarrow> b58_digits n = []"
  by (subst b58_digits.simps) simp

lemma b58_digits_pos:
  "0 < n \<Longrightarrow> b58_digits n = b58_digits (n div 58) @ [b58_alphabet ! nat (n mod 58)]"
  by (subst b58_digits.simps) simp

lemma byte_length_nonpos: "n \<le> 0 \<Longrightarrow> byte_length n = 0"
  by (subst byte_length.simps) simp

lemma byte_length_pos: "0 < n \<Longrightarrow> byte_length n = Suc (byte_length (n div 256))"
  by (subst byte_length.simps) simp

lemma div_256_less:
  assumes "(n::int) < 256 * x"
  shows "n div 256 < x"
proof (rule ccontr)
  assume "\<not> n div 256 < x"
  then have "256 * x \<le> 256 * (n div 256)" by simp
  also have "\<dots> \<le> 256 * (n div 256) + n mod 256" by simp
  also have "\<dots> = n" by (rule mult_div_mod_eq)
  finally show False using assms by simp
qed

lemma b58_alphabet_distinct: "distinct b58_alphabet" "length b58_alphabet = 58"
  by (simp_all add: b58_alphabet_def)

lemma index_of_nth: "distinct xs \<Longrightarrow> k < length xs \<Longrightarrow> index_of xs (xs ! k) = Some k"
proof (induction xs arbitrary: k)
  case Nil
  then show ?case by simp
next
  case (Cons y ys)
  show ?case
  proof (cases k)
    case 0
    then show ?thesis by simp
  next
    case (Suc j)
    with Cons.prems have "ys ! j \<in> set ys" "y \<notin> set ys" by simp_all
    then have "ys ! j \<noteq> y" by auto
    with Cons Suc show ?thesis by simp
  qed
qed

lemma b58_index: "0 \<le> d \<Longrightarrow> d < 58 \<Longrightarrow> index_of b58_alphabet (b58_alphabet ! nat d) = Some (nat d)"
  by (rule index_of_nth) (simp_all add: b58_alphabet_distinct)

lemma b58_digits_valid:
  "list_all (\<lambda>c. index_of b58_alphabet c \<noteq> None) (b58_digits n)"
proof (induction n rule: b58_digits.induct)
  case (1 n)
  show ?case
  proof (cases "n \<le> 0")
    case True
    then show ?thesis by (simp add: b58_digits_nonpos)
  next
    case False
    then have "0 \<le> n mod 58" "n mod 58 < 58" by simp_all
    then have "index_of b58_alphabet (b58_alphabet ! nat (n mod 58)) = Some (nat (n mod 58))"
      by (rule b58_index)
    with "1.IH" False show ?thesis by (simp add: b58_digits_pos del: not_None_eq)
  qed
qed

lemma b58_digits_value:
  "0 \<le> n \<Longrightarrow>
   foldl (\<lambda>acc c. 58 * acc + int (the (index_of b58_alphabet c))) 0 (b58_digits n) = n"
proof (induction n rule: b58_digits.induct)
  case (1 n)
  show ?case
  proof (cases "n \<le> 0")
    case True
    with "1.prems" have "n = 0" by simp
    then show ?thesis by (simp add: b58_digits_nonpos)
  next
    case False
    then have d: "0 \<le> n mod 58" "n mod 58 < 58" "0 \<le> n div 58" by simp_all
    from d(1,2) have "index_of b58_alphabet (b58_alphabet ! nat (n mod 58)) = Some (nat (n mod 58))"
      by (rule b58_index)
    with "1.IH" [OF False d(3)] False d show ?thesis
      by (simp add: b58_digits_pos)
  qed
qed

lemma b58_digits_head:
  "0 < n \<Longrightarrow> b58_digits n \<noteq> [] \<and> hd (b58_digits n) \<noteq> b58_alphabet ! 0"
proof (induction n rule: b58_digits.induct)
  case (1 n)
  then have pos: "\<not> n \<le> 0" by simp
  show ?case
  proof (cases "n div 58 \<le> 0")
    case True
    with "1.prems" have small: "n < 58" "b58_digits (n div 58) = []"
      by (simp_all add: b58_digits_nonpos)
    with "1.prems" have "nat (n mod 58) < length b58_alphabet" "nat (n mod 58) \<noteq> 0"
      by (simp_all add: b58_alphabet_distinct)
    then have "b58_alphabet ! nat (n mod 58) \<noteq> b58_alphabet ! 0"
      using b58_alphabet_distinct by (simp add: nth_eq_iff_index_eq)
    with small "1.prems" show ?thesis by (simp add: b58_digits_pos)
  next
    case False
    then have "0 < n div 58" by simp
    with "1.IH" [OF pos] have "b58_digits (n div 58) \<noteq> []"
      "hd (b58_digits (n div 58)) \<noteq> b58_alphabet ! 0" by simp_all
    with "1.prems" show ?thesis by (simp add: b58_digits_pos)
  qed
qed

lemma byte_length_bound: "n < 256 ^ k \<Longrightarrow> byte_length n \<le> k"
proof (induction k arbitrary: n)
  case 0
  then show ?case by (simp add: byte_length_nonpos)
next
  case (Suc k)
  show ?case
  proof (cases "n \<le> 0")
    case True
    then show ?thesis by (simp add: byte_length_nonpos)
  next
    case False
    from Suc.prems have "n div 256 < 256 ^ k" by (intro div_256_less) simp
    with Suc.IH [of "n div 256"] False show ?thesis by (simp add: byte_length_pos)
  qed
qed

lemma uuid_byte_length: "byte_length (uint (u :: 128 word)) \<le> 16"
proof -
  have "uint u < 2 ^ 128" using uint_bounded [of u] by simp
  moreover have "(256::int) ^ 16 = 2 ^ 128" by simp
  ultimately have "uint u < 256 ^ 16" by simp
  then show ?thesis by (rule byte_length_bound)
qed

lemma takeWhile_replicate_head:
  "d = [] \<or> hd d \<noteq> z \<Longrightarrow> takeWhile (\<lambda>c. c = z) (replicate k z @ d) = replicate k z"
  by (induction k) (auto simp: takeWhile_eq_Nil_iff neq_Nil_conv)

lemma dropWhile_replicate_head:
  "d = [] \<or> hd d \<noteq> z \<Longrightarrow> dropWhile (\<lambda>c. c = z) (replicate k z @ d) = d"
  by (induction k) (auto simp: dropWhile_eq_self_iff neq_Nil_conv)

lemma uuid_to_base58_valid:
  "list_all (\<lambda>c. index_of b58_alphabet c \<noteq> None) (uuid_to_base58 u)"
proof -
  have "index_of b58_alphabet (b58_alphabet ! 0) = Some 0"
    by (rule index_of_nth) (simp_all add: b58_alphabet_distinct)
  then have "list_all (\<lambda>c. index_of b58_alphabet c \<noteq> None)
      (replicate (16 - byte_length (uint u)) (b58_alphabet ! 0))"
    by (simp add: list_all_iff)
  with b58_digits_valid [of "uint u"] show ?thesis
    by (simp add: uuid_to_base58_def del: not_None_eq)
qed

lemma uuid_base58_roundtrip: "uuid_from_base58 (uuid_to_base58 u) = Some u"
proof -
  let ?z = "b58_alphabet ! 0"
  let ?k = "16 - byte_length (uint u)"
  have head: "b58_digits (uint u) = [] \<or> hd (b58_digits (uint u)) \<noteq> ?z"
  proof (cases "0 < uint u")
    case True
    then show ?thesis using b58_digits_head by simp
  next
    case False
    then have "uint u \<le> 0" by (simp only: not_less)
    then have "b58_digits (uint u) = []" by (rule b58_digits_nonpos)
    then show ?thesis by (rule disjI1)
  qed
  have t: "takeWhile (\<lambda>c. c = ?z) (uuid_to_base58 u) = replicate ?k ?z"
    unfolding uuid_to_base58_def using head by (rule takeWhile_replicate_head)
  have d: "dropWhile (\<lambda>c. c = ?z) (uuid_to_base58 u) = b58_digits (uint u)"
    unfolding uuid_to_base58_def using head by (rule dropWhile_replicate_head)
  have v: "foldl (\<lambda>acc c. 58 * acc + int (the (index_of b58_alphabet c))) 0 (b58_digits (uint u))
      = uint u"
    by (rule b58_digits_value) simp
  have "?k + byte_length (uint u) = 16" using uuid_byte_length [of u] by simp
  with uuid_to_base58_valid [of u] show ?thesis
    unfolding uuid_from_base58_def t d v by (simp del: not_None_eq)
qed

lemma uuid_to_base58_no_hyphen: "CHR ''-'' \<notin> set (uuid_to_base58 u)"
proof
  assume "CHR ''-'' \<in> set (uuid_to_base58 u)"
  with uuid_to_base58_valid [of u] have "index_of b58_alphabet CHR ''-'' \<noteq> None"
    by (simp add: list_all_iff del: not_None_eq)
  moreover have "index_of b58_alphabet CHR ''-'' = None" by (simp add: b58_alphabet_def)
  ultimately show False by simp
qed

lemma url_name_uuid_b58_roundtrip:
  "parse_url_name_uuid_b58 (url_name_uuid_b58 u name) = Some u"
proof -
  have "CHR ''-'' \<notin> set (rev (uuid_to_base58 u))"
    using uuid_to_base58_no_hyphen [of u] by simp
  then have "takeWhile (\<lambda>c. c \<noteq> CHR ''-'') (rev (uuid_to_base58 u) @ CHR ''-'' # rev name)
      = rev (uuid_to_base58 u)"
    by (rule takeWhile_before_hyphen)
  then show ?thesis
    by (simp add: parse_url_name_uuid_b58_def url_name_uuid_b58_def uuid_base58_roundtrip)
qed

text \<open>
  C9. Parsing a rendered compound identifier gives back the primary key of the entity:
  from \<open><id>-<name>\<close> for every integer key, the id being its decimal string, and for
  every UUID key, the id being its 32 hex digits, whatever the name is; and from the
  compact variant \<open><name>-<base58>\<close> for every UUID. An identifier without a name is
  read back as well: the decimal string of an integer key, and the hex, the dashed and
  the compact encoding of a UUID.
\<close>

theorem compound_identifier_roundtrip:
  "parse_url_id_name IntKind (url_id_name (IntKey k) name) = Some (IntKey k)
   \<and> parse_url_id_name UuidKind (url_id_name (UuidKey u) name) = Some (UuidKey u)
   \<and> parse_url_name_uuid_b58 (url_name_uuid_b58 u name) = Some u
   \<and> parse_url_id IntKind (url_id (IntKey k)) = Some (IntKey k)
   \<and> parse_url_id UuidKind (url_id (UuidKey u)) = Some (UuidKey u)
   \<and> parse_url_id UuidKind (uuid_dashed u) = Some (UuidKey u)
   \<and> uuid_from_base58 (uuid_to_base58 u) = Some u"
  by (simp add: int_key_roundtrip uuid_key_roundtrip url_name_uuid_b58_roundtrip
      parse_url_id_def url_id_def parse_int_str_int parse_uuid_hex parse_uuid_dashed
      uuid_base58_roundtrip)

theorem compound_identifier_roundtrip_witness:
  "url_id_name (IntKey 42) ''report'' = ''42-report''
   \<and> parse_url_id_name IntKind ''42-report'' = Some (IntKey 42)
   \<and> url_id_name (IntKey 1) ''hello-again'' = ''1-hello-again''
   \<and> parse_url_id_name IntKind ''1-hello-again'' = Some (IntKey 1)
   \<and> url_id_name (UuidKey test_uuid) ''test'' = ''74d588574a7611e78c27c38403d0935c-test''
   \<and> parse_url_id_name UuidKind ''74d588574a7611e78c27c38403d0935c-test'' = Some (UuidKey test_uuid)
   \<and> url_name_uuid_b58 test_uuid ''test'' = ''test-FRn1p6EnzbhydnssMnHqFZ''
   \<and> parse_url_name_uuid_b58 ''test-FRn1p6EnzbhydnssMnHqFZ'' = Some test_uuid
   \<and> uuid_dashed test_uuid = ''74d58857-4a76-11e7-8c27-c38403d0935c''
   \<and> parse_url_id UuidKind ''74d58857-4a76-11e7-8c27-c38403d0935c'' = Some (UuidKey test_uuid)
   \<and> parse_url_id_name UuidKind ''garbage!'' = None"
proof -
  have r: "url_id_name (IntKey 42) ''report'' = ''42-report''"
    "url_id_name (IntKey 1) ''hello-again'' = ''1-hello-again''"
    "url_id_name (UuidKey test_uuid) ''test'' = ''74d588574a7611e78c27c38403d0935c-test''"
    "url_name_uuid_b58 test_uuid ''test'' = ''test-FRn1p6EnzbhydnssMnHqFZ''"
    "uuid_dashed test_uuid = ''74d58857-4a76-11e7-8c27-c38403d0935c''"
    by code_simp+
  have g: "parse_url_id_name UuidKind ''garbage!'' = None" by code_simp
  from compound_identifier_roundtrip [of 42 "''report''" test_uuid]
    compound_identifier_roundtrip [of 1 "''hello-again''" test_uuid]
    compound_identifier_roundtrip [of 42 "''test''" test_uuid] g
  show ?thesis unfolding r by simp
qed

end
